theory Spec2Isabelle
  imports Main "HOL-Library.Word"
begin

unbundle bit_operations_syntax

section \<open>Texture swizzling (hw/xbox/nv2a/swizzle.c)\<close>

text \<open>
  The C types \<open>unsigned int\<close> and \<open>uint32_t\<close> are 32-bit words; \<open>uint8_t\<close> is a byte.
  A buffer is a store from byte offsets (relative to the pointer the caller passes) to bytes;
  the source and the destination of a copy are distinct buffers and no bound is checked,
  as in the C code.
\<close>

type_synonym u32 = "32 word"
type_synonym byte = "8 word"
type_synonym buffer = "nat \<Rightarrow> byte"

datatype error = AssertionFailed

subsection \<open>generate_swizzle_masks\<close>

text \<open>
  The state of the do-while loop is \<open>(x, y, z, bit, mask_bit)\<close>, with \<open>bit\<close> written
  \<open>bit'\<close>. One round is \<open>gen_round\<close>, which also returns the flag \<open>done\<close>.
\<close>

type_synonym gen_state = "u32 \<times> u32 \<times> u32 \<times> u32 \<times> u32"

definition gen_round :: "u32 \<Rightarrow> u32 \<Rightarrow> u32 \<Rightarrow> gen_state \<Rightarrow> gen_state \<times> bool" where
  "gen_round width height depth s =
    (case s of (x, y, z, bit', mask_bit) \<Rightarrow>
      let done = True;
          (x, mask_bit, done) =
            (if bit' < width then (x OR mask_bit, push_bit 1 mask_bit, False)
             else (x, mask_bit, done));
          (y, mask_bit, done) =
            (if bit' < height then (y OR mask_bit, push_bit 1 mask_bit, False)
             else (y, mask_bit, done));
          (z, mask_bit, done) =
            (if bit' < depth then (z OR mask_bit, push_bit 1 mask_bit, False)
             else (z, mask_bit, done));
          bit' = push_bit 1 bit'
      in ((x, y, z, bit', mask_bit), done))"

partial_function (option) gen_loop :: "u32 \<Rightarrow> u32 \<Rightarrow> u32 \<Rightarrow> gen_state \<Rightarrow> gen_state option" where
  "gen_loop width height depth s =
    (case gen_round width height depth s of
      (s', done) \<Rightarrow> if done then Some s' else gen_loop width height depth s')"

declare gen_loop.simps [code]

text \<open>
  The result is \<open>None\<close> when the loop does not end, \<open>Some (Inl AssertionFailed)\<close> when the
  \<open>assert\<close> after the loop fires, and \<open>Some (Inr (mask_x, mask_y, mask_z))\<close> otherwise.
\<close>

definition generate_swizzle_masks ::
  "u32 \<Rightarrow> u32 \<Rightarrow> u32 \<Rightarrow> (error + u32 \<times> u32 \<times> u32) option" where
  "generate_swizzle_masks width height depth =
    (case gen_loop width height depth (0, 0, 0, 1, 1) of
      None \<Rightarrow> None
    | Some (x, y, z, bit', mask_bit) \<Rightarrow>
        if x XOR y XOR z = mask_bit - 1 then Some (Inr (x, y, z))
        else Some (Inl AssertionFailed))"

subsection \<open>expand\<close>

text \<open>
  \<open>struct expand_mask\<close>: the mask (field \<open>mask'\<close>) and the five move masks. The loop counters \<open>i\<close> are C
  \<open>int\<close>s that stay within \<open>-1 .. 5\<close>.
\<close>

record expand_mask =
  mask' :: u32
  moves :: "u32 list"

definition parallel_suffix :: "u32 \<Rightarrow> u32" where
  "parallel_suffix mk =
    (let mp = mk XOR push_bit 1 mk;
         mp = mp XOR push_bit 2 mp;
         mp = mp XOR push_bit 4 mp;
         mp = mp XOR push_bit 8 mp;
         mp = mp XOR push_bit 16 mp
     in mp)"

function moves_loop :: "int \<Rightarrow> u32 \<Rightarrow> u32 \<Rightarrow> u32 list \<Rightarrow> u32 list" where
  "moves_loop i mk m mvs =
    (if i < 5 then
       let mp = parallel_suffix mk;
           mv = mp AND m;
           mvs = mvs[nat i := mv];
           m = (m XOR mv) OR drop_bit (2 ^ nat i) mv;
           mk = mk AND NOT mp
       in moves_loop (i + 1) mk m mvs
     else mvs)"
  by pat_completeness auto
termination
  by (relation "measure (\<lambda>(i, mk, m, mvs). nat (5 - i))") auto

definition generate_expand_mask_moves :: "expand_mask \<Rightarrow> expand_mask" where
  "generate_expand_mask_moves em =
    em\<lparr>moves := moves_loop 0 (push_bit 1 (NOT (mask' em))) (mask' em) (moves em)\<rparr>"

text \<open>The software path of \<open>expand\<close> (the one compiled without BMI2).\<close>

function expand_loop :: "int \<Rightarrow> u32 list \<Rightarrow> u32 \<Rightarrow> u32" where
  "expand_loop i mvs x =
    (if i \<ge> 0 then
       let mv = mvs ! nat i;
           t = push_bit (2 ^ nat i) x;
           x = (x AND NOT mv) OR (t AND mv)
       in expand_loop (i - 1) mvs x
     else x)"
  by pat_completeness auto
termination
  by (relation "measure (\<lambda>(i, mvs, x). nat (i + 1))") auto

definition expand :: "u32 \<Rightarrow> expand_mask \<Rightarrow> u32" where
  "expand x em = expand_loop 4 (moves em) x AND mask' em"

definition get_swizzled_offset ::
  "u32 \<Rightarrow> u32 \<Rightarrow> u32 \<Rightarrow> expand_mask \<Rightarrow> expand_mask \<Rightarrow> expand_mask \<Rightarrow> u32 \<Rightarrow> u32" where
  "get_swizzled_offset x y z mask_x mask_y mask_z bytes_per_pixel =
    bytes_per_pixel * (expand x mask_x OR expand y mask_y OR expand z mask_z)"

subsection \<open>swizzle_box and unswizzle_box\<close>

text \<open>
  \<open>memcpy dst d src s n\<close> is the destination buffer after copying \<open>n\<close> bytes from offset
  \<open>s\<close> of \<open>src\<close> to offset \<open>d\<close> of \<open>dst\<close>.
\<close>

definition memcpy :: "buffer \<Rightarrow> nat \<Rightarrow> buffer \<Rightarrow> nat \<Rightarrow> nat \<Rightarrow> buffer" where
  "memcpy dst d src s n = (\<lambda>a. if d \<le> a \<and> a < d + n then src (s + (a - d)) else dst a)"

text \<open>
  The local \<open>expand_mask\<close> structs start with unspecified move entries, all five of which
  \<open>generate_expand_mask_moves\<close> overwrites; the model starts them at zero.
\<close>

definition make_expand_mask :: "u32 \<Rightarrow> expand_mask" where
  "make_expand_mask m = generate_expand_mask_moves \<lparr>mask' = m, moves = replicate 5 0\<rparr>"

text \<open>
  The loop counters \<open>x\<close>, \<open>y\<close>, \<open>z\<close> are C \<open>int\<close>s, converted to \<open>unsigned int\<close> in the
  comparisons and products; they are words here. \<open>for_loop i n body s\<close> is
  \<open>for (; i < n; i++) body\<close> run from the state \<open>s\<close>. The loops are only reached
  with dimensions of at most \<open>2 ^ 31\<close> (otherwise the mask generator does not return), so
  a counter stays below \<open>2 ^ 31\<close> inside the loop body; the last increment for a dimension
  of exactly \<open>2 ^ 31\<close> steps from \<open>INT_MAX\<close> to the word \<open>2 ^ 31\<close>, which ends the loop.
\<close>

function for_loop :: "u32 \<Rightarrow> u32 \<Rightarrow> (u32 \<Rightarrow> 's \<Rightarrow> 's) \<Rightarrow> 's \<Rightarrow> 's" where
  "for_loop i n body s = (if i < n then for_loop (i + 1) n body (body i s) else s)"
  by pat_completeness auto
termination
proof (relation "measure (\<lambda>(i, n, body, s). unat n - unat i)")
  fix i n :: u32
  fix body :: "u32 \<Rightarrow> 's \<Rightarrow> 's" and s :: 's
  assume "i < n"
  then have "unat (i + 1) = Suc (unat i)" and "unat i < unat n"
    by unat_arith+
  then show "((i + 1, n, body, body i s), (i, n, body, s))
    \<in> measure (\<lambda>(i, n, body, s). unat n - unat i)"
    by simp
qed simp

text \<open>
  \<open>src_buf\<close> (in \<open>unswizzle_box\<close>, \<open>dst_buf\<close>) is the offset of the current slice in the
  linear buffer, which the outer loop advances by \<open>slice_pitch\<close>; pointer arithmetic is not
  truncated to 32 bits, the two products \<open>y * row_pitch\<close> and \<open>x * bytes_per_pixel\<close> are.
\<close>

definition swizzle_box ::
  "buffer \<Rightarrow> u32 \<Rightarrow> u32 \<Rightarrow> u32 \<Rightarrow> buffer \<Rightarrow> u32 \<Rightarrow> u32 \<Rightarrow> u32 \<Rightarrow> (error + buffer) option" where
  "swizzle_box src_mem width height depth dst_mem row_pitch slice_pitch bytes_per_pixel =
    (case generate_swizzle_masks width height depth of
      None \<Rightarrow> None
    | Some (Inl e) \<Rightarrow> Some (Inl e)
    | Some (Inr (m_x, m_y, m_z)) \<Rightarrow>
        let mask_x = make_expand_mask m_x;
            mask_y = make_expand_mask m_y;
            mask_z = make_expand_mask m_z;
            (src_buf, dst_mem) =
              for_loop 0 depth (\<lambda>z (src_buf, dst_mem).
                let dst_mem =
                  for_loop 0 height (\<lambda>y dst_mem.
                    for_loop 0 width (\<lambda>x dst_mem.
                      let src = src_buf + unat (y * row_pitch) + unat (x * bytes_per_pixel);
                          dst = unat (get_swizzled_offset x y z mask_x mask_y mask_z
                                        bytes_per_pixel)
                      in memcpy dst_mem dst src_mem src (unat bytes_per_pixel))
                    dst_mem)
                  dst_mem
                in (src_buf + unat slice_pitch, dst_mem))
              (0, dst_mem)
        in Some (Inr dst_mem))"

definition unswizzle_box ::
  "buffer \<Rightarrow> u32 \<Rightarrow> u32 \<Rightarrow> u32 \<Rightarrow> buffer \<Rightarrow> u32 \<Rightarrow> u32 \<Rightarrow> u32 \<Rightarrow> (error + buffer) option" where
  "unswizzle_box src_mem width height depth dst_mem row_pitch slice_pitch bytes_per_pixel =
    (case generate_swizzle_masks width height depth of
      None \<Rightarrow> None
    | Some (Inl e) \<Rightarrow> Some (Inl e)
    | Some (Inr (m_x, m_y, m_z)) \<Rightarrow>
        let mask_x = make_expand_mask m_x;
            mask_y = make_expand_mask m_y;
            mask_z = make_expand_mask m_z;
            (dst_buf, dst_mem) =
              for_loop 0 depth (\<lambda>z (dst_buf, dst_mem).
                let dst_mem =
                  for_loop 0 height (\<lambda>y dst_mem.
                    for_loop 0 width (\<lambda>x dst_mem.
                      let src = unat (get_swizzled_offset x y z mask_x mask_y mask_z
                                        bytes_per_pixel);
                          dst = dst_buf + unat (y * row_pitch) + unat (x * bytes_per_pixel)
                      in memcpy dst_mem dst src_mem src (unat bytes_per_pixel))
                    dst_mem)
                  dst_mem
                in (dst_buf + unat slice_pitch, dst_mem))
              (0, dst_mem)
        in Some (Inr dst_mem))"

definition unswizzle_rect ::
  "buffer \<Rightarrow> u32 \<Rightarrow> u32 \<Rightarrow> buffer \<Rightarrow> u32 \<Rightarrow> u32 \<Rightarrow> (error + buffer) option" where
  "unswizzle_rect src_mem width height dst_mem pitch bytes_per_pixel =
    unswizzle_box src_mem width height 1 dst_mem pitch 0 bytes_per_pixel"

definition swizzle_rect ::
  "buffer \<Rightarrow> u32 \<Rightarrow> u32 \<Rightarrow> buffer \<Rightarrow> u32 \<Rightarrow> u32 \<Rightarrow> (error + buffer) option" where
  "swizzle_rect src_mem width height dst_mem pitch bytes_per_pixel =
    swizzle_box src_mem width height 1 dst_mem pitch 0 bytes_per_pixel"

declare for_loop.simps [simp del]
declare moves_loop.simps [simp del]
declare expand_loop.simps [simp del]

section \<open>Auxiliary notions\<close>

text \<open>
  The invariant of the mask loop: \<open>mask_bit\<close> is a power of two (zero once it has been
  shifted out), the three masks are pairwise disjoint and together fill the bits below it.
\<close>

definition gen_inv :: "gen_state \<Rightarrow> bool" where
  "gen_inv s = (case s of (x, y, z, bit0, mask_bit) \<Rightarrow>
     (\<exists>n. mask_bit = 2 ^ n \<and> x OR y OR z = mask n) \<and>
     x AND y = 0 \<and> y AND z = 0 \<and> x AND z = 0)"

text \<open>
  \<open>rank m p\<close> counts the set bits of \<open>m\<close> below position \<open>p\<close>; \<open>popcount m\<close> counts
  all of them. \<open>axis_bits n r\<close> is the number of rounds \<open>k < r\<close> of the mask loop in which
  an axis of size \<open>n\<close> receives a bit (those with \<open>2 ^ k < n\<close>). \<open>masks_after W H D r\<close>
  describes the masks after \<open>r\<close> rounds as long as no bit has been shifted out.
\<close>

primrec rank :: "u32 \<Rightarrow> nat \<Rightarrow> nat" where
  "rank m 0 = 0"
| "rank m (Suc p) = rank m p + (if bit m p then 1 else 0)"

definition popcount :: "u32 \<Rightarrow> nat" where
  "popcount m = rank m 32"

primrec axis_bits :: "nat \<Rightarrow> nat \<Rightarrow> nat" where
  "axis_bits n 0 = 0"
| "axis_bits n (Suc r) = axis_bits n r + (if 2 ^ r < n then 1 else 0)"

definition masks_after :: "nat \<Rightarrow> nat \<Rightarrow> nat \<Rightarrow> nat \<Rightarrow> u32 \<times> u32 \<times> u32 \<times> u32 \<Rightarrow> bool" where
  "masks_after W H D r s = (case s of (x, y, z, mask_bit) \<Rightarrow>
     mask_bit = 2 ^ (axis_bits W r + axis_bits H r + axis_bits D r) \<and>
     x OR y OR z = mask (axis_bits W r + axis_bits H r + axis_bits D r) \<and>
     x AND y = 0 \<and> y AND z = 0 \<and> x AND z = 0 \<and>
     popcount x = axis_bits W r \<and> popcount y = axis_bits H r \<and> popcount z = axis_bits D r)"

text \<open>
  The box copy, coordinate by coordinate: \<open>box_coords\<close> lists the coordinates in the order
  of the loop nest (\<open>z\<close> outermost, \<open>x\<close> innermost); \<open>linear_address\<close> and
  \<open>swizzled_address\<close> are the byte offsets the loop body computes for a coordinate
  (the two products and the swizzled offset in 32-bit arithmetic, the slice offset and the
  sums in pointer arithmetic); \<open>swizzle_pixel\<close> and \<open>unswizzle_pixel\<close> are the single
  \<open>memcpy\<close> of \<open>bytes_per_pixel\<close> bytes of the two directions.
\<close>

definition word_range :: "u32 \<Rightarrow> u32 list" where
  "word_range n = map word_of_nat [0..<unat n]"

definition box_coords :: "u32 \<Rightarrow> u32 \<Rightarrow> u32 \<Rightarrow> (u32 \<times> u32 \<times> u32) list" where
  "box_coords width height depth =
    concat (map (\<lambda>z. concat (map (\<lambda>y. map (\<lambda>x. (x, y, z))
      (word_range width)) (word_range height))) (word_range depth))"

definition linear_address :: "u32 \<Rightarrow> u32 \<Rightarrow> u32 \<Rightarrow> u32 \<times> u32 \<times> u32 \<Rightarrow> nat" where
  "linear_address row_pitch slice_pitch bytes_per_pixel c = (case c of (x, y, z) \<Rightarrow>
     unat z * unat slice_pitch + unat (y * row_pitch) + unat (x * bytes_per_pixel))"

definition swizzled_address :: "u32 \<times> u32 \<times> u32 \<Rightarrow> u32 \<Rightarrow> u32 \<times> u32 \<times> u32 \<Rightarrow> nat" where
  "swizzled_address masks bytes_per_pixel c = (case masks of (m_x, m_y, m_z) \<Rightarrow>
     case c of (x, y, z) \<Rightarrow>
       unat (bytes_per_pixel * (expand x (make_expand_mask m_x) OR expand y (make_expand_mask m_y)
         OR expand z (make_expand_mask m_z))))"

definition swizzle_pixel ::
  "buffer \<Rightarrow> u32 \<times> u32 \<times> u32 \<Rightarrow> u32 \<Rightarrow> u32 \<Rightarrow> u32 \<Rightarrow> u32 \<times> u32 \<times> u32 \<Rightarrow> buffer \<Rightarrow> buffer" where
  "swizzle_pixel src_mem masks row_pitch slice_pitch bytes_per_pixel c dst_mem =
    memcpy dst_mem (swizzled_address masks bytes_per_pixel c)
      src_mem (linear_address row_pitch slice_pitch bytes_per_pixel c) (unat bytes_per_pixel)"

definition unswizzle_pixel ::
  "buffer \<Rightarrow> u32 \<times> u32 \<times> u32 \<Rightarrow> u32 \<Rightarrow> u32 \<Rightarrow> u32 \<Rightarrow> u32 \<times> u32 \<times> u32 \<Rightarrow> buffer \<Rightarrow> buffer" where
  "unswizzle_pixel src_mem masks row_pitch slice_pitch bytes_per_pixel c dst_mem =
    memcpy dst_mem (linear_address row_pitch slice_pitch bytes_per_pixel c)
      src_mem (swizzled_address masks bytes_per_pixel c) (unat bytes_per_pixel)"

text \<open>
  The bit scatter. \<open>zeros_below m p\<close> counts the clear bits of \<open>m\<close> below position \<open>p\<close>:
  the distance a mask bit at \<open>p\<close> travels. \<open>stage m i\<close> is the pair \<open>(mk, mask)\<close> of
  \<open>generate_expand_mask_moves\<close> at the start of iteration \<open>i\<close>, \<open>move m i\<close> the move mask
  stored by that iteration, and \<open>partial_expand m v k\<close> the value in \<open>expand\<close> after the
  first \<open>k\<close> iterations (those of \<open>i = 4\<close> down to \<open>5 - k\<close>). \<open>prefix_parity w j\<close> is the
  parity of bits \<open>0 .. j\<close> of \<open>w\<close>, \<open>window_parity w n j\<close> that of the \<open>n\<close> bits ending at
  \<open>j\<close>. \<open>set_bit_positions m\<close> lists the positions of the set bits of \<open>m\<close>, lowest first.
\<close>

primrec zeros_below :: "u32 \<Rightarrow> nat \<Rightarrow> nat" where
  "zeros_below m 0 = 0"
| "zeros_below m (Suc p) = zeros_below m p + (if bit m p then 0 else 1)"

primrec prefix_parity :: "u32 \<Rightarrow> nat \<Rightarrow> bool" where
  "prefix_parity w 0 = bit w 0"
| "prefix_parity w (Suc j) = (prefix_parity w j \<noteq> bit w (Suc j))"

primrec window_parity :: "u32 \<Rightarrow> nat \<Rightarrow> nat \<Rightarrow> bool" where
  "window_parity w 0 j = False"
| "window_parity w (Suc n) j = (window_parity w n j \<noteq> (n \<le> j \<and> bit w (j - n)))"

primrec stage :: "u32 \<Rightarrow> nat \<Rightarrow> u32 \<times> u32" where
  "stage m 0 = (push_bit 1 (NOT m), m)"
| "stage m (Suc i) = (case stage m i of (mk, mc) \<Rightarrow>
     (mk AND NOT (parallel_suffix mk),
      (mc XOR (parallel_suffix mk AND mc)) OR drop_bit (2 ^ i) (parallel_suffix mk AND mc)))"

definition move :: "u32 \<Rightarrow> nat \<Rightarrow> u32" where
  "move m i = (case stage m i of (mk, mc) \<Rightarrow> parallel_suffix mk AND mc)"

primrec partial_expand :: "u32 \<Rightarrow> u32 \<Rightarrow> nat \<Rightarrow> u32" where
  "partial_expand m v 0 = v"
| "partial_expand m v (Suc k) =
     (partial_expand m v k AND NOT (move m (4 - k))) OR
     (push_bit (2 ^ (4 - k)) (partial_expand m v k) AND move m (4 - k))"

definition stage_inv :: "u32 \<Rightarrow> nat \<Rightarrow> bool" where
  "stage_inv m i \<longleftrightarrow>
    (\<forall>j. bit (fst (stage m i)) j \<longleftrightarrow>
       1 \<le> j \<and> j < 32 \<and> \<not> bit m (j - 1) \<and> 2 ^ i dvd zeros_below m j) \<and>
    (\<forall>q. bit (snd (stage m i)) q \<longleftrightarrow>
       (\<exists>p<32. bit m p \<and> q = p - zeros_below m p mod 2 ^ i))"

definition set_bit_positions :: "u32 \<Rightarrow> nat list" where
  "set_bit_positions m = filter (bit m) [0..<32]"

definition example_expand_mask :: expand_mask where
  "example_expand_mask = \<lparr>mask' = 0x9A, moves = replicate 5 0\<rparr>"

text \<open>
  \<open>deposit 32 m v\<close> is the bit deposit computed one mask bit at a time, the specification
  \<open>expand\<close> is compared with.
\<close>

fun deposit :: "nat \<Rightarrow> u32 \<Rightarrow> u32 \<Rightarrow> u32" where
  "deposit 0 m v = 0"
| "deposit (Suc n) m v =
    (if m = 0 then 0
     else if bit m 0 then (v AND 1) OR push_bit 1 (deposit n (drop_bit 1 m) (drop_bit 1 v))
     else push_bit 1 (deposit n (drop_bit 1 m) v))"

text \<open>
  \<open>swizzled_index masks (x, y, z)\<close> is the offset map of \<open>get_swizzled_offset\<close> before the
  multiplication by \<open>bytes_per_pixel\<close>, and \<open>box w h d\<close> the set of coordinates of a box.
  \<open>pixel_bytes\<close> is the set of linear offsets of the bytes of all pixels, and
  \<open>round_trip\<close> runs \<open>swizzle_box\<close> into a temporary buffer and \<open>unswizzle_box\<close> back out
  of it, with the same dimensions, pitches and pixel size. \<open>read_byte\<close> reads one byte of a
  returned buffer; \<open>marked_buffer\<close>, \<open>zero_buffer\<close> and \<open>wrap_probe_buffer\<close> (which marks
  offsets 0 and \<open>2 ^ 32\<close> with different bytes) are concrete buffers.
\<close>

definition swizzled_index :: "u32 \<times> u32 \<times> u32 \<Rightarrow> u32 \<times> u32 \<times> u32 \<Rightarrow> u32" where
  "swizzled_index masks c = (case masks of (m_x, m_y, m_z) \<Rightarrow> case c of (x, y, z) \<Rightarrow>
     expand x (make_expand_mask m_x) OR expand y (make_expand_mask m_y)
       OR expand z (make_expand_mask m_z))"

definition box :: "u32 \<Rightarrow> u32 \<Rightarrow> u32 \<Rightarrow> (u32 \<times> u32 \<times> u32) set" where
  "box w h d = {(x, y, z). x < w \<and> y < h \<and> z < d}"

definition pixel_bytes :: "u32 \<Rightarrow> u32 \<Rightarrow> u32 \<Rightarrow> u32 \<Rightarrow> u32 \<Rightarrow> u32 \<Rightarrow> nat set" where
  "pixel_bytes w h d row_pitch slice_pitch bytes_per_pixel =
    {linear_address row_pitch slice_pitch bytes_per_pixel c + k | c k.
       c \<in> box w h d \<and> k < unat bytes_per_pixel}"

definition round_trip ::
  "buffer \<Rightarrow> u32 \<Rightarrow> u32 \<Rightarrow> u32 \<Rightarrow> u32 \<Rightarrow> u32 \<Rightarrow> u32 \<Rightarrow> buffer \<Rightarrow> buffer \<Rightarrow> (error + buffer) option" where
  "round_trip src_mem width height depth row_pitch slice_pitch bytes_per_pixel tmp_mem dst_mem =
    (case swizzle_box src_mem width height depth tmp_mem row_pitch slice_pitch bytes_per_pixel of
      Some (Inr swizzled) \<Rightarrow>
        unswizzle_box swizzled width height depth dst_mem row_pitch slice_pitch bytes_per_pixel
    | r \<Rightarrow> r)"

definition read_byte :: "(error + buffer) option \<Rightarrow> nat \<Rightarrow> byte option" where
  "read_byte r a = (case r of Some (Inr m) \<Rightarrow> Some (m a) | _ \<Rightarrow> None)"

definition marked_buffer :: buffer where
  "marked_buffer = (\<lambda>a. if a = 0 then 1 else 0)"

definition zero_buffer :: buffer where
  "zero_buffer = (\<lambda>a. 0)"

definition wrap_probe_buffer :: buffer where
  "wrap_probe_buffer = (\<lambda>a. if a = 2 ^ 32 then 1 else if a = 0 then 2 else 0)"

section \<open>The mask generator\<close>

lemma mask_or_exp: "(mask n :: u32) OR 2 ^ n = mask (Suc n)"
  by (simp add: mask_Suc_exp or.commute)

lemma below_mask_disjoint:
  fixes a u :: u32
  assumes "a OR u = mask n"
  shows "a AND 2 ^ n = 0"
proof (rule bit_eqI)
  fix k
  have "bit (a OR u) k \<longleftrightarrow> bit (mask n :: u32) k" using assms by simp
  then show "bit (a AND 2 ^ n) k \<longleftrightarrow> bit (0 :: u32) k"
    by (auto simp: bit_simps)
qed

lemma gen_inv_assign:
  fixes a b c :: u32
  assumes "\<exists>n. mb = 2 ^ n \<and> a OR b OR c = mask n" "a AND b = 0" "b AND c = 0" "a AND c = 0"
  shows "(\<exists>n. push_bit 1 mb = 2 ^ n \<and> (a OR mb) OR b OR c = mask n) \<and>
     (a OR mb) AND b = 0 \<and> (a OR mb) AND c = 0"
proof -
  from assms obtain n where n: "mb = 2 ^ n" "a OR b OR c = mask n" by blast
  have "b OR (a OR c) = mask n" "c OR (a OR b) = mask n"
    using n(2) by (simp_all add: ac_simps)
  then have d: "b AND mb = 0" "c AND mb = 0"
    unfolding n(1) by (auto intro: below_mask_disjoint)
  have "(a OR mb) OR b OR c = (a OR b OR c) OR mb" by (simp add: ac_simps)
  then have "(a OR mb) OR b OR c = mask (Suc n)" by (simp add: n mask_or_exp)
  moreover have "push_bit 1 mb = 2 ^ Suc n" by (simp add: n push_bit_eq_mult)
  moreover have "(a OR mb) AND b = 0" "(a OR mb) AND c = 0"
    using assms d by (simp_all add: bit.conj_disj_distrib2 and.commute [of mb])
  ultimately show ?thesis by blast
qed

lemma gen_inv_x:
  assumes "gen_inv (x, y, z, b, mb)"
  shows "gen_inv (if c then x OR mb else x, y, z, b', if c then push_bit 1 mb else mb)"
proof (cases c)
  case True
  then show ?thesis
    using gen_inv_assign [of mb x y z] assms unfolding gen_inv_def by (simp only: if_True prod.case)
next
  case False
  then show ?thesis using assms by (simp add: gen_inv_def)
qed

lemma gen_inv_y:
  assumes "gen_inv (x, y, z, b, mb)"
  shows "gen_inv (x, if c then y OR mb else y, z, b', if c then push_bit 1 mb else mb)"
proof (cases c)
  case True
  have "gen_inv (y, x, z, b, mb)" using assms by (simp add: gen_inv_def ac_simps)
  then have "gen_inv (if c then y OR mb else y, x, z, b', if c then push_bit 1 mb else mb)"
    by (rule gen_inv_x)
  then show ?thesis unfolding gen_inv_def by (simp only: prod.case ac_simps) 
next
  case False
  then show ?thesis using assms by (simp add: gen_inv_def)
qed

lemma gen_inv_z:
  assumes "gen_inv (x, y, z, b, mb)"
  shows "gen_inv (x, y, if c then z OR mb else z, b', if c then push_bit 1 mb else mb)"
proof (cases c)
  case True
  have "gen_inv (z, y, x, b, mb)" using assms by (simp add: gen_inv_def ac_simps)
  then have "gen_inv (if c then z OR mb else z, y, x, b', if c then push_bit 1 mb else mb)"
    by (rule gen_inv_x)
  then show ?thesis unfolding gen_inv_def by (simp only: prod.case ac_simps) 
next
  case False
  then show ?thesis using assms by (simp add: gen_inv_def)
qed

lemma gen_round_eq:
  "gen_round w h d (x, y, z, b, mb) =
    (let x1 = (if b < w then x OR mb else x);
         mb1 = (if b < w then push_bit 1 mb else mb);
         y1 = (if b < h then y OR mb1 else y);
         mb2 = (if b < h then push_bit 1 mb1 else mb1);
         z1 = (if b < d then z OR mb2 else z);
         mb3 = (if b < d then push_bit 1 mb2 else mb2)
     in ((x1, y1, z1, push_bit 1 b, mb3), \<not> b < w \<and> \<not> b < h \<and> \<not> b < d))"
  by (simp add: gen_round_def Let_def)

lemma gen_inv_round:
  assumes "gen_inv s" "gen_round w h d s = (s', dn)"
  shows "gen_inv s'"
proof -
  obtain x y z b mb where s: "s = (x, y, z, b, mb)" by (cases s)
  define x1 where "x1 = (if b < w then x OR mb else x)"
  define mb1 where "mb1 = (if b < w then push_bit 1 mb else mb)"
  define y1 where "y1 = (if b < h then y OR mb1 else y)"
  define mb2 where "mb2 = (if b < h then push_bit 1 mb1 else mb1)"
  define z1 where "z1 = (if b < d then z OR mb2 else z)"
  define mb3 where "mb3 = (if b < d then push_bit 1 mb2 else mb2)"
  have "gen_inv (x1, y, z, b, mb1)"
    using assms(1) unfolding s x1_def mb1_def by (rule gen_inv_x)
  then have "gen_inv (x1, y1, z, b, mb2)"
    unfolding y1_def mb2_def by (rule gen_inv_y)
  then have "gen_inv (x1, y1, z1, push_bit 1 b, mb3)"
    unfolding z1_def mb3_def by (rule gen_inv_z)
  moreover have "s' = (x1, y1, z1, push_bit 1 b, mb3)"
    using assms(2) unfolding s gen_round_eq x1_def mb1_def y1_def mb2_def z1_def mb3_def Let_def
    by simp
  ultimately show ?thesis by simp
qed

lemma gen_inv_init: "gen_inv (0, 0, 0, 1, 1)"
  unfolding gen_inv_def by (auto intro: exI [of _ 0])

lemma gen_loop_induct [consumes 1, case_names exit step]:
  assumes "gen_loop w h d s = Some r"
    and "\<And>s s'. gen_round w h d s = (s', True) \<Longrightarrow> P s s'"
    and "\<And>s s' r. gen_round w h d s = (s', False) \<Longrightarrow> P s' r \<Longrightarrow> P s r"
  shows "P s r"
proof -
  have "w = w \<and> h = h \<and> d = d \<longrightarrow> P s r"
  proof (rule gen_loop.raw_induct [where P = "\<lambda>w' h' d' s r. w' = w \<and> h' = h \<and> d' = d \<longrightarrow> P s r",
        OF _ assms(1)])
    fix gl w' h' d' s r
    assume ih: "\<And>w' h' d' s r. gl w' h' d' s = Some r \<Longrightarrow> w' = w \<and> h' = h \<and> d' = d \<longrightarrow> P s r"
      and eq: "(case gen_round w' h' d' s of
          (s', dn) \<Rightarrow> if dn then Some s' else gl w' h' d' s') = Some r"
    show "w' = w \<and> h' = h \<and> d' = d \<longrightarrow> P s r"
    proof
      assume e: "w' = w \<and> h' = h \<and> d' = d"
      obtain s' dn where g: "gen_round w h d s = (s', dn)" by (cases "gen_round w h d s")
      show "P s r"
      proof (cases dn)
        case True
        then show ?thesis using eq e g assms(2) by auto
      next
        case False
        then have "gl w h d s' = Some r" using eq e g by simp
        then have "P s' r" using ih by blast
        with False g show ?thesis by (auto intro: assms(3))
      qed
    qed
  qed
  then show ?thesis by simp
qed

lemma gen_loop_inv:
  assumes "gen_loop w h d s = Some r"
  shows "gen_inv s \<longrightarrow> gen_inv r"
  using assms by (induct rule: gen_loop_induct) (auto dest: gen_inv_round)


lemma p2_lt_32: "r < 32 \<Longrightarrow> (2 :: nat) ^ r < 4294967296"
  using power_strict_increasing [of r 32 "2 :: nat"] by simp

lemma p2_le_31: "r < 32 \<Longrightarrow> (2 :: nat) ^ r \<le> 2147483648"
  using power_increasing [of r 31 "2 :: nat"] by simp

lemma unat_2p: "r < 32 \<Longrightarrow> unat (2 ^ r :: u32) = 2 ^ r"
proof -
  assume r: "r < 32"
  have "(2 :: u32) ^ r = word_of_nat (2 ^ r)" by simp
  then have "unat ((2 :: u32) ^ r) = 2 ^ r mod 2 ^ 32"
    by (simp only: unat_of_nat) simp
  moreover have "(2 :: nat) ^ r < 2 ^ 32"
    using r by (simp add: p2_lt_32)
  ultimately show ?thesis by simp
qed

lemma exp_less_iff: "r < 32 \<Longrightarrow> (2 ^ r :: u32) < w \<longleftrightarrow> 2 ^ r < unat w"
  by (simp add: word_less_nat_alt unat_2p)

lemma push_bit_exp: "push_bit 1 (2 ^ r :: u32) = 2 ^ Suc r"
  by (simp add: push_bit_eq_mult)

text \<open>Once a dimension exceeds \<open>2 ^ 31\<close> the loop cannot end.\<close>

lemma gen_loop_diverges:
  assumes big: "2 ^ 31 < unat w \<or> 2 ^ 31 < unat h \<or> 2 ^ 31 < unat d"
    and b: "\<exists>r. b = 2 ^ r"
  shows "gen_loop w h d (x, y, z, b, mb) = None"
proof (rule ccontr)
  assume "gen_loop w h d (x, y, z, b, mb) \<noteq> None"
  then obtain res where "gen_loop w h d (x, y, z, b, mb) = Some res" by blast
  then have "\<not> (\<exists>r. fst (snd (snd (snd (x, y, z, b, mb)))) = (2 :: u32) ^ r)"
  proof (induct rule: gen_loop_induct)
    case (exit s s')
    obtain x y z b mb where s: "s = (x, y, z, b, mb)" by (cases s)
    have nl: "\<not> b < w \<and> \<not> b < h \<and> \<not> b < d"
      using exit unfolding s gen_round_eq by (simp add: Let_def)
    show ?case
    proof
      assume "\<exists>r. fst (snd (snd (snd s))) = (2 :: u32) ^ r"
      then obtain r where r: "b = 2 ^ r" by (auto simp: s)
      show False
      proof (cases "r < 32")
        case True
        then have "unat b \<le> 2 ^ 31"
          by (simp add: r unat_2p p2_le_31)
        then show False using nl big by (auto simp: word_less_nat_alt)
      next
        case False
        then have "b = 0" by (simp add: r)
        then show False using nl big by (auto simp: word_less_nat_alt)
      qed
    qed
  next
    case (step s s' res)
    obtain x y z b mb where s: "s = (x, y, z, b, mb)" by (cases s)
    have "fst (snd (snd (snd s'))) = push_bit 1 b"
      using step(1) unfolding s gen_round_eq by (auto simp: Let_def)
    moreover have "\<exists>r'. push_bit 1 b = 2 ^ r'" if "b = 2 ^ r" for r
      unfolding that push_bit_exp by blast
    ultimately show ?case using step(2) by (auto simp: s)
  qed
  then show False using b by simp
qed

lemma generate_swizzle_masks_diverges:
  assumes "2 ^ 31 < unat w \<or> 2 ^ 31 < unat h \<or> 2 ^ 31 < unat d"
  shows "generate_swizzle_masks w h d = None"
proof -
  have "\<exists>r. (1 :: u32) = 2 ^ r" by (rule exI [of _ 0]) simp
  then have "gen_loop w h d (0, 0, 0, 1, 1) = None"
    using assms by (rule gen_loop_diverges [rotated])
  then show ?thesis by (simp add: generate_swizzle_masks_def)
qed

lemma xor3_eq_or3:
  fixes x y z :: u32
  assumes "x AND y = 0" "y AND z = 0" "x AND z = 0"
  shows "x XOR y XOR z = x OR y OR z"
proof -
  have "x AND (y OR z) = 0" using assms by (simp add: bit.conj_disj_distrib)
  then show ?thesis using assms by (simp add: disjunctive_xor_eq_or)
qed

lemma gen_loop_post:
  assumes "gen_loop w h d (0, 0, 0, 1, 1) = Some (x, y, z, b, mb)"
  shows "x XOR y XOR z = mb - 1" "x AND y = 0" "y AND z = 0" "x AND z = 0"
    "\<exists>n. x OR y OR z = mask n"
proof -
  have "gen_inv (x, y, z, b, mb)"
    using gen_loop_inv [OF assms] gen_inv_init by simp
  then obtain n where n: "mb = 2 ^ n" "x OR y OR z = mask n"
    and dj: "x AND y = 0" "y AND z = 0" "x AND z = 0"
    by (auto simp: gen_inv_def)
  show "x AND y = 0" "y AND z = 0" "x AND z = 0" by (fact dj)+
  show "\<exists>n. x OR y OR z = mask n" using n by blast
  show "x XOR y XOR z = mb - 1"
    using n by (simp add: xor3_eq_or3 [OF dj] mask_eq_exp_minus_1)
qed

lemma generate_swizzle_masks_no_assert:
  "generate_swizzle_masks w h d \<noteq> Some (Inl AssertionFailed)"
  by (auto simp: generate_swizzle_masks_def split: option.splits dest: gen_loop_post(1))

lemma rank_le: "rank m p \<le> p"
  by (induction p) auto

lemma rank_mono: "p \<le> q \<Longrightarrow> rank m p \<le> rank m q"
  by (induction q) (auto simp: le_Suc_eq)

lemma rank_or_exp:
  assumes "\<not> bit a n" "n < 32"
  shows "rank (a OR 2 ^ n) p = rank a p + (if n < p then 1 else 0)"
  using assms by (induction p) (auto simp: bit_simps less_Suc_eq)

lemma popcount_or_exp:
  fixes a u :: u32
  assumes "a OR u = mask n" "n < 32"
  shows "popcount (a OR 2 ^ n) = Suc (popcount a)"
proof -
  have "bit (a OR u) n \<longleftrightarrow> bit (mask n :: u32) n" using assms by simp
  then have "\<not> bit a n" by (simp add: bit_simps)
  then show ?thesis using assms(2) by (simp add: popcount_def rank_or_exp)
qed

lemma axis_bits_le: "axis_bits n r \<le> r"
  by (induction r) auto

lemma axis_bits_mono: "r \<le> r' \<Longrightarrow> axis_bits n r \<le> axis_bits n r'"
  by (induction r') (auto simp: le_Suc_eq)

lemma axis_bits_stable: "n \<le> 2 ^ r \<Longrightarrow> r \<le> r' \<Longrightarrow> axis_bits n r' = axis_bits n r"
proof (induction r')
  case 0
  then show ?case by simp
next
  case (Suc r')
  show ?case
  proof (cases "r = Suc r'")
    case True
    then show ?thesis by simp
  next
    case False
    then have le: "r \<le> r'" using Suc.prems by simp
    then have "(2 :: nat) ^ r \<le> 2 ^ r'" by (simp add: power_increasing)
    then have "\<not> 2 ^ r' < n" using Suc.prems(1) by linarith
    then show ?thesis using Suc.IH [OF Suc.prems(1) le] by simp
  qed
qed

lemma axis_bits_full: "2 ^ r < n \<Longrightarrow> axis_bits n (Suc r) = Suc r"
proof (induction r)
  case 0
  then show ?case by simp
next
  case (Suc r)
  have "(2 :: nat) ^ r < 2 ^ Suc r" by simp
  then have "2 ^ r < n" using Suc.prems by simp
  then show ?case using Suc by simp
qed

lemma axis_bits_bound: "n \<le> 2 ^ a \<Longrightarrow> axis_bits n r \<le> a"
proof (induction r)
  case 0
  then show ?case by simp
next
  case (Suc r)
  show ?case
  proof (cases "2 ^ r < n")
    case True
    then have "(2 :: nat) ^ r < 2 ^ a" using Suc.prems by linarith
    then have "r < a" using power_less_imp_less_exp [of 2 r a] by simp
    moreover have "axis_bits n r \<le> r" by (rule axis_bits_le)
    ultimately show ?thesis using True by simp
  next
    case False
    then show ?thesis using Suc by simp
  qed
qed

lemma axis_bits_cover: "axis_bits n r = r \<or> n \<le> 2 ^ axis_bits n r"
proof (induction r)
  case 0
  then show ?case by simp
next
  case (Suc r)
  show ?case
  proof (cases "2 ^ r < n")
    case True
    then show ?thesis using axis_bits_full [of r n] by simp
  next
    case False
    then show ?thesis using Suc by auto
  qed
qed

lemma axis_bits_covers_u32: "unat (w :: u32) \<le> 2 ^ axis_bits (unat w) 32"
proof -
  have "unat w < 2 ^ 32" using unsigned_less [of w, where 'a = nat] by simp
  then show ?thesis using axis_bits_cover [of "unat w" 32] by auto
qed


lemma assign_step:
  fixes a b c :: u32
  assumes mb: "mb = 2 ^ n" and un: "a OR b OR c = mask n"
    and dj: "a AND b = 0" "b AND c = 0" "a AND c = 0"
    and n: "t \<Longrightarrow> n < 32"
  shows "(if t then push_bit 1 mb else mb) = 2 ^ (n + (if t then 1 else 0))"
    and "(if t then a OR mb else a) OR b OR c = mask (n + (if t then 1 else 0))"
    and "(if t then a OR mb else a) AND b = 0"
    and "(if t then a OR mb else a) AND c = 0"
    and "popcount (if t then a OR mb else a) = popcount a + (if t then 1 else 0)"
proof -
  have "b OR (a OR c) = mask n" "c OR (a OR b) = mask n"
    using un by (simp_all add: ac_simps)
  then have d: "b AND mb = 0" "c AND mb = 0"
    unfolding mb by (auto intro: below_mask_disjoint)
  have "(a OR mb) OR b OR c = (a OR b OR c) OR mb" by (simp add: ac_simps)
  then have u: "(a OR mb) OR b OR c = mask (Suc n)" by (simp add: mb un mask_or_exp)
  have p: "push_bit 1 mb = 2 ^ Suc n" by (simp add: mb push_bit_eq_mult)
  have a: "(a OR mb) AND b = 0" "(a OR mb) AND c = 0"
    using dj d by (simp_all add: bit.conj_disj_distrib2 and.commute [of mb])
  have c: "popcount (a OR mb) = Suc (popcount a)" if t
    unfolding mb using un n [OF that] by (rule popcount_or_exp)
  show "(if t then push_bit 1 mb else mb) = 2 ^ (n + (if t then 1 else 0))"
    using p mb by simp
  show "(if t then a OR mb else a) OR b OR c = mask (n + (if t then 1 else 0))"
    using u un by simp
  show "(if t then a OR mb else a) AND b = 0" using a dj by simp
  show "(if t then a OR mb else a) AND c = 0" using a dj by simp
  show "popcount (if t then a OR mb else a) = popcount a + (if t then 1 else 0)"
    using c by simp
qed

lemma gen_round_masks_after:
  assumes K: "masks_after (unat w) (unat h) (unat d) r (x, y, z, mb)"
    and r: "r < 32"
    and tot: "axis_bits (unat w) (Suc r) + axis_bits (unat h) (Suc r) + axis_bits (unat d) (Suc r)
      \<le> 32"
  shows "\<exists>x' y' z' mb'. gen_round w h d (x, y, z, 2 ^ r, mb) =
      ((x', y', z', 2 ^ Suc r, mb'),
        \<not> 2 ^ r < unat w \<and> \<not> 2 ^ r < unat h \<and> \<not> 2 ^ r < unat d) \<and>
      masks_after (unat w) (unat h) (unat d) (Suc r) (x', y', z', mb')"
proof -
  define tx where "tx \<longleftrightarrow> 2 ^ r < unat w"
  define ty where "ty \<longleftrightarrow> 2 ^ r < unat h"
  define tz where "tz \<longleftrightarrow> 2 ^ r < unat d"
  define cx where "cx = axis_bits (unat w) r"
  define cy where "cy = axis_bits (unat h) r"
  define cz where "cz = axis_bits (unat d) r"
  define n0 where "n0 = cx + cy + cz"
  define n1 where "n1 = n0 + (if tx then 1 else 0)"
  define n2 where "n2 = n1 + (if ty then 1 else 0)"
  define n3 where "n3 = n2 + (if tz then 1 else 0)"
  define x1 where "x1 = (if tx then x OR mb else x)"
  define mb1 where "mb1 = (if tx then push_bit 1 mb else mb)"
  define y1 where "y1 = (if ty then y OR mb1 else y)"
  define mb2 where "mb2 = (if ty then push_bit 1 mb1 else mb1)"
  define z1 where "z1 = (if tz then z OR mb2 else z)"
  define mb3 where "mb3 = (if tz then push_bit 1 mb2 else mb2)"
  have sx: "axis_bits (unat w) (Suc r) = cx + (if tx then 1 else 0)"
    and sy: "axis_bits (unat h) (Suc r) = cy + (if ty then 1 else 0)"
    and sz: "axis_bits (unat d) (Suc r) = cz + (if tz then 1 else 0)"
    by (simp_all add: cx_def cy_def cz_def tx_def ty_def tz_def)
  have n3: "n3 \<le> 32" "axis_bits (unat w) (Suc r) + axis_bits (unat h) (Suc r)
      + axis_bits (unat d) (Suc r) = n3"
    using tot unfolding sx sy sz n3_def n2_def n1_def n0_def by simp_all
  have lt: "tx \<Longrightarrow> n0 < 32" "ty \<Longrightarrow> n1 < 32" "tz \<Longrightarrow> n2 < 32"
    using n3(1) unfolding n3_def n2_def n1_def by (simp_all split: if_splits)
  from K have k0: "mb = 2 ^ n0" "x OR y OR z = mask n0" "x AND y = 0" "y AND z = 0"
    "x AND z = 0" "popcount x = cx" "popcount y = cy" "popcount z = cz"
    by (simp_all add: masks_after_def n0_def cx_def cy_def cz_def)
  note a1 = assign_step [OF k0(1) k0(2) k0(3) k0(4) k0(5) lt(1), of tx,
      folded x1_def mb1_def n1_def]
  have u1: "y OR x1 OR z = mask n1" "y AND x1 = 0" "x1 AND z = 0"
    using a1 by (simp_all add: ac_simps)
  note a2 = assign_step [OF a1(1) u1(1) u1(2) u1(3) k0(4) lt(2), of ty,
      folded y1_def mb2_def n2_def]
  have u2: "z OR x1 OR y1 = mask n2" "z AND x1 = 0" "x1 AND y1 = 0" "z AND y1 = 0"
    using a2 u1 by (simp_all add: ac_simps)
  note a3 = assign_step [OF a2(1) u2(1) u2(2) u2(3) u2(4) lt(3), of tz,
      folded z1_def mb3_def n3_def]
  have u3: "x1 OR y1 OR z1 = mask n3" "y1 AND z1 = 0" "x1 AND z1 = 0"
    using a3 by (simp_all add: ac_simps)
  have f1: "mb3 = 2 ^ (axis_bits (unat w) (Suc r) + axis_bits (unat h) (Suc r)
      + axis_bits (unat d) (Suc r))"
    unfolding n3(2) by (rule a3(1))
  have f2: "x1 OR y1 OR z1 = mask (axis_bits (unat w) (Suc r) + axis_bits (unat h) (Suc r)
      + axis_bits (unat d) (Suc r))"
    unfolding n3(2) by (rule u3(1))
  have f3: "popcount x1 = axis_bits (unat w) (Suc r)" "popcount y1 = axis_bits (unat h) (Suc r)"
    "popcount z1 = axis_bits (unat d) (Suc r)"
    using a1(5) a2(5) a3(5) k0(6-8) sx sy sz by simp_all
  have "masks_after (unat w) (unat h) (unat d) (Suc r) (x1, y1, z1, mb3)"
    unfolding masks_after_def prod.case
    using f1 f2 f3 u2(3) u3(2,3) by blast
  moreover have "gen_round w h d (x, y, z, 2 ^ r, mb) =
      ((x1, y1, z1, 2 ^ Suc r, mb3), \<not> tx \<and> \<not> ty \<and> \<not> tz)"
    unfolding gen_round_eq Let_def exp_less_iff [OF r] push_bit_exp
    by (simp only: x1_def mb1_def y1_def mb2_def z1_def mb3_def tx_def ty_def tz_def)
  ultimately show ?thesis unfolding tx_def ty_def tz_def by blast
qed


lemma gen_loop_unfold:
  "gen_loop w h d s = (if snd (gen_round w h d s) then Some (fst (gen_round w h d s))
     else gen_loop w h d (fst (gen_round w h d s)))"
  by (subst gen_loop.simps) (simp split: prod.splits)

lemma gen_loop_terminates:
  assumes dims: "unat w \<le> 2 ^ 31" "unat h \<le> 2 ^ 31" "unat d \<le> 2 ^ 31"
  shows "r < 32 \<Longrightarrow> \<exists>res. gen_loop w h d (x, y, z, 2 ^ r, mb) = Some res"
proof (induction k \<equiv> "31 - r" arbitrary: r x y z mb)
  case 0
  then have r: "r = 31" by simp
  have "\<not> 2 ^ r < unat w \<and> \<not> 2 ^ r < unat h \<and> \<not> 2 ^ r < unat d"
    using dims unfolding r by simp
  then have "snd (gen_round w h d (x, y, z, 2 ^ r, mb))"
    unfolding gen_round_eq Let_def exp_less_iff [OF \<open>r < 32\<close>] by simp
  then have "gen_loop w h d (x, y, z, 2 ^ r, mb) = Some (fst (gen_round w h d (x, y, z, 2 ^ r, mb)))"
    by (subst gen_loop_unfold) simp
  then show ?case by blast
next
  case (Suc k)
  then have r: "Suc r < 32" by simp
  obtain x' y' z' mb' where
    s': "fst (gen_round w h d (x, y, z, 2 ^ r, mb)) = (x', y', z', 2 ^ Suc r, mb')"
    unfolding gen_round_eq Let_def push_bit_exp by simp
  have "\<exists>res. gen_loop w h d (x', y', z', 2 ^ Suc r, mb') = Some res"
    using Suc(1) [of "Suc r"] Suc(2) r by simp
  then show ?case by (subst gen_loop_unfold) (simp add: s')
qed

lemma gen_loop_masks_after:
  assumes dims: "unat w \<le> 2 ^ 31" "unat h \<le> 2 ^ 31" "unat d \<le> 2 ^ 31"
    and tot: "axis_bits (unat w) 32 + axis_bits (unat h) 32 + axis_bits (unat d) 32 \<le> 32"
  shows "r < 32 \<Longrightarrow> masks_after (unat w) (unat h) (unat d) r (x, y, z, mb) \<Longrightarrow>
    \<exists>x' y' z' b' mb'. gen_loop w h d (x, y, z, 2 ^ r, mb) = Some (x', y', z', b', mb') \<and>
      masks_after (unat w) (unat h) (unat d) 32 (x', y', z', mb')"
proof (induction k \<equiv> "31 - r" arbitrary: r x y z mb)
  case 0
  then have r: "r = 31" by simp
  have "axis_bits (unat w) (Suc r) + axis_bits (unat h) (Suc r) + axis_bits (unat d) (Suc r)
      \<le> 32"
    using tot unfolding r by simp
  from gen_round_masks_after [OF "0.prems"(2,1) this]
  obtain x' y' z' mb' where g: "gen_round w h d (x, y, z, 2 ^ r, mb) =
      ((x', y', z', 2 ^ Suc r, mb'),
        \<not> 2 ^ r < unat w \<and> \<not> 2 ^ r < unat h \<and> \<not> 2 ^ r < unat d)"
    and m: "masks_after (unat w) (unat h) (unat d) (Suc r) (x', y', z', mb')"
    by blast
  have "\<not> 2 ^ r < unat w \<and> \<not> 2 ^ r < unat h \<and> \<not> 2 ^ r < unat d"
    using dims unfolding r by simp
  then have "gen_loop w h d (x, y, z, 2 ^ r, mb) = Some (x', y', z', 2 ^ Suc r, mb')"
    by (subst gen_loop_unfold) (simp add: g)
  then show ?case using m unfolding r by auto
next
  case (Suc k)
  then have r: "Suc r < 32" "Suc r \<le> 32" by simp_all
  have "axis_bits (unat w) (Suc r) + axis_bits (unat h) (Suc r) + axis_bits (unat d) (Suc r)
      \<le> 32"
    using tot axis_bits_mono [OF r(2), of "unat w"] axis_bits_mono [OF r(2), of "unat h"]
      axis_bits_mono [OF r(2), of "unat d"]
    by linarith
  from gen_round_masks_after [OF Suc.prems(2,1) this]
  obtain x' y' z' mb' where g: "gen_round w h d (x, y, z, 2 ^ r, mb) =
      ((x', y', z', 2 ^ Suc r, mb'),
        \<not> 2 ^ r < unat w \<and> \<not> 2 ^ r < unat h \<and> \<not> 2 ^ r < unat d)"
    and m: "masks_after (unat w) (unat h) (unat d) (Suc r) (x', y', z', mb')"
    by blast
  show ?case
  proof (cases "\<not> 2 ^ r < unat w \<and> \<not> 2 ^ r < unat h \<and> \<not> 2 ^ r < unat d")
    case True
    then have "gen_loop w h d (x, y, z, 2 ^ r, mb) = Some (x', y', z', 2 ^ Suc r, mb')"
      by (subst gen_loop_unfold) (simp add: g)
    moreover have "axis_bits (unat w) 32 = axis_bits (unat w) (Suc r)"
      "axis_bits (unat h) 32 = axis_bits (unat h) (Suc r)"
      "axis_bits (unat d) 32 = axis_bits (unat d) (Suc r)"
      using True r(2) by (auto intro!: axis_bits_stable simp del: axis_bits.simps)
    ultimately show ?thesis using m unfolding masks_after_def by auto
  next
    case False
    have "gen_loop w h d (x, y, z, 2 ^ r, mb) = gen_loop w h d (x', y', z', 2 ^ Suc r, mb')"
      by (subst gen_loop_unfold) (use False in \<open>auto simp add: g\<close>)
    then show ?thesis using Suc(1) [of "Suc r", OF _ r(1) m] Suc(2) by simp
  qed
qed

lemma rank_zero: "rank 0 p = 0"
  by (induction p) auto

lemma masks_after_init: "masks_after W H D 0 (0, 0, 0, 1)"
  by (simp add: masks_after_def popcount_def rank_zero)


lemma generate_swizzle_masks_returns:
  assumes "unat w \<le> 2 ^ 31" "unat h \<le> 2 ^ 31" "unat d \<le> 2 ^ 31"
  shows "\<exists>mx my mz. generate_swizzle_masks w h d = Some (Inr (mx, my, mz))"
proof -
  obtain res where res: "gen_loop w h d (0, 0, 0, 2 ^ 0, 1) = Some res"
    using gen_loop_terminates [OF assms, where r = 0 and x = 0 and y = 0 and z = 0 and mb = 1]
    by auto
  obtain x y z b mb where "res = (x, y, z, b, mb)" by (cases res)
  with res have r: "gen_loop w h d (0, 0, 0, 1, 1) = Some (x, y, z, b, mb)" by simp
  then show ?thesis
    using gen_loop_post(1) [OF r] by (simp add: generate_swizzle_masks_def)
qed

lemma generate_swizzle_masks_fit:
  assumes dims: "unat w \<le> 2 ^ 31" "unat h \<le> 2 ^ 31" "unat d \<le> 2 ^ 31"
    and tot: "axis_bits (unat w) 32 + axis_bits (unat h) 32 + axis_bits (unat d) 32 \<le> 32"
  shows "\<exists>mx my mz. generate_swizzle_masks w h d = Some (Inr (mx, my, mz)) \<and>
    mx OR my OR mz = mask (axis_bits (unat w) 32 + axis_bits (unat h) 32 + axis_bits (unat d) 32) \<and>
    mx AND my = 0 \<and> my AND mz = 0 \<and> mx AND mz = 0 \<and>
    popcount mx = axis_bits (unat w) 32 \<and> popcount my = axis_bits (unat h) 32 \<and>
    popcount mz = axis_bits (unat d) 32"
proof -
  obtain x y z b mb where r: "gen_loop w h d (0, 0, 0, 2 ^ 0, 1) = Some (x, y, z, b, mb)"
    and m: "masks_after (unat w) (unat h) (unat d) 32 (x, y, z, mb)"
    using gen_loop_masks_after [OF dims tot _ masks_after_init] by auto
  from r have r': "gen_loop w h d (0, 0, 0, 1, 1) = Some (x, y, z, b, mb)" by simp
  have "generate_swizzle_masks w h d = Some (Inr (x, y, z))"
    using gen_loop_post(1) [OF r'] r' by (simp add: generate_swizzle_masks_def)
  then show ?thesis using m unfolding masks_after_def by auto
qed

lemma gen_round_components:
  assumes "gen_round w h d (x, y, z, b, mb) = (s', dn)"
  shows "fst (snd (snd (snd s'))) = push_bit 1 b"
    and "\<not> b < w \<Longrightarrow> fst s' = x"
    and "\<not> b < h \<Longrightarrow> fst (snd s') = y"
    and "\<not> b < d \<Longrightarrow> fst (snd (snd s')) = z"
    and "dn \<longleftrightarrow> \<not> b < w \<and> \<not> b < h \<and> \<not> b < d"
  using assms unfolding gen_round_eq Let_def by auto

lemma gen_loop_unit_x:
  assumes "gen_loop 1 h d s = Some res"
  shows "fst (snd (snd (snd s))) \<noteq> 0 \<and> (fst s = 0 \<longrightarrow> fst res = 0)"
  using assms
proof (induct rule: gen_loop_induct)
  case (exit s s')
  obtain x y z b mb where s: "s = (x, y, z, b, mb)" by (cases s)
  note c = gen_round_components [OF exit [unfolded s]]
  from c(5) have "\<not> b < 1" by simp
  then show ?case using c(2) by (simp add: s word_less_1)
next
  case (step s s' res)
  obtain x y z b mb where s: "s = (x, y, z, b, mb)" by (cases s)
  note c = gen_round_components [OF step(1) [unfolded s]]
  have "b \<noteq> 0" using step(2) c(1) by auto
  then have "\<not> b < 1" by (simp add: word_less_1)
  then show ?case using step(2) c(2) \<open>b \<noteq> 0\<close> by (simp add: s)
qed

lemma gen_loop_unit_y:
  assumes "gen_loop w 1 d s = Some res"
  shows "fst (snd (snd (snd s))) \<noteq> 0 \<and> (fst (snd s) = 0 \<longrightarrow> fst (snd res) = 0)"
  using assms
proof (induct rule: gen_loop_induct)
  case (exit s s')
  obtain x y z b mb where s: "s = (x, y, z, b, mb)" by (cases s)
  note c = gen_round_components [OF exit [unfolded s]]
  from c(5) have "\<not> b < 1" by simp
  then show ?case using c(3) by (simp add: s word_less_1)
next
  case (step s s' res)
  obtain x y z b mb where s: "s = (x, y, z, b, mb)" by (cases s)
  note c = gen_round_components [OF step(1) [unfolded s]]
  have "b \<noteq> 0" using step(2) c(1) by auto
  then have "\<not> b < 1" by (simp add: word_less_1)
  then show ?case using step(2) c(3) \<open>b \<noteq> 0\<close> by (simp add: s)
qed

lemma gen_loop_unit_z:
  assumes "gen_loop w h 1 s = Some res"
  shows "fst (snd (snd (snd s))) \<noteq> 0 \<and> (fst (snd (snd s)) = 0 \<longrightarrow> fst (snd (snd res)) = 0)"
  using assms
proof (induct rule: gen_loop_induct)
  case (exit s s')
  obtain x y z b mb where s: "s = (x, y, z, b, mb)" by (cases s)
  note c = gen_round_components [OF exit [unfolded s]]
  from c(5) have "\<not> b < 1" by simp
  then show ?case using c(4) by (simp add: s word_less_1)
next
  case (step s s' res)
  obtain x y z b mb where s: "s = (x, y, z, b, mb)" by (cases s)
  note c = gen_round_components [OF step(1) [unfolded s]]
  have "b \<noteq> 0" using step(2) c(1) by auto
  then have "\<not> b < 1" by (simp add: word_less_1)
  then show ?case using step(2) c(4) \<open>b \<noteq> 0\<close> by (simp add: s)
qed

lemma generate_swizzle_masks_unit:
  assumes "generate_swizzle_masks w h d = Some (Inr (mx, my, mz))"
  shows "w = 1 \<Longrightarrow> mx = 0" "h = 1 \<Longrightarrow> my = 0" "d = 1 \<Longrightarrow> mz = 0"
proof -
  obtain b mb where r: "gen_loop w h d (0, 0, 0, 1, 1) = Some (mx, my, mz, b, mb)"
    using assms by (auto simp: generate_swizzle_masks_def split: option.splits if_splits)
  show "w = 1 \<Longrightarrow> mx = 0" using gen_loop_unit_x [of h d] r by auto
  show "h = 1 \<Longrightarrow> my = 0" using gen_loop_unit_y [of w d] r by auto
  show "d = 1 \<Longrightarrow> mz = 0" using gen_loop_unit_z [of w h] r by auto
qed

text \<open>
  C4: the masks \<open>generate_swizzle_masks\<close> returns are pairwise disjoint, and their union,
  which is also their exclusive or, is a contiguous range of low bits: it is
  \<open>mask_bit - 1\<close> for the \<open>mask_bit\<close> the loop exits with, the returned masks being those
  of the exit state. The assertion after the loop never fires, and masks are returned for
  all dimensions up to \<open>2 ^ 31\<close>.
\<close>

theorem generate_swizzle_masks_postcondition:
  "(generate_swizzle_masks w h d = Some (Inr (mx, my, mz)) \<longrightarrow>
      mx AND my = 0 \<and> my AND mz = 0 \<and> mx AND mz = 0 \<and>
      (\<exists>n. mx OR my OR mz = mask n \<and> mx XOR my XOR mz = mask n) \<and>
      (\<exists>b mb. gen_loop w h d (0, 0, 0, 1, 1) = Some (mx, my, mz, b, mb) \<and>
         mx XOR my XOR mz = mb - 1)) \<and>
   (gen_loop w h d (0, 0, 0, 1, 1) = Some (x, y, z, b, mb) \<longrightarrow>
      x XOR y XOR z = mb - 1 \<and> x AND y = 0 \<and> y AND z = 0 \<and> x AND z = 0 \<and>
      (\<exists>n. x OR y OR z = mask n) \<and>
      generate_swizzle_masks w h d = Some (Inr (x, y, z))) \<and>
   (unat w \<le> 2 ^ 31 \<and> unat h \<le> 2 ^ 31 \<and> unat d \<le> 2 ^ 31 \<longrightarrow>
      (\<exists>mx my mz. generate_swizzle_masks w h d = Some (Inr (mx, my, mz)))) \<and>
   generate_swizzle_masks w h d \<noteq> Some (Inl AssertionFailed)"
proof -
  have loop: "x XOR y XOR z = mb - 1 \<and> x AND y = 0 \<and> y AND z = 0 \<and> x AND z = 0 \<and>
      (\<exists>n. x OR y OR z = mask n) \<and> generate_swizzle_masks w h d = Some (Inr (x, y, z))"
    if "gen_loop w h d (0, 0, 0, 1, 1) = Some (x, y, z, b, mb)" for x y z b mb
    using gen_loop_post [OF that] that by (simp add: generate_swizzle_masks_def)
  have ret: "mx AND my = 0 \<and> my AND mz = 0 \<and> mx AND mz = 0 \<and>
      (\<exists>n. mx OR my OR mz = mask n \<and> mx XOR my XOR mz = mask n) \<and>
      (\<exists>b mb. gen_loop w h d (0, 0, 0, 1, 1) = Some (mx, my, mz, b, mb) \<and>
         mx XOR my XOR mz = mb - 1)"
    if r: "generate_swizzle_masks w h d = Some (Inr (mx, my, mz))"
  proof -
    from r obtain b mb where g: "gen_loop w h d (0, 0, 0, 1, 1) = Some (mx, my, mz, b, mb)"
      by (auto simp: generate_swizzle_masks_def split: option.splits if_splits)
    note p = gen_loop_post [OF g]
    from p(5) obtain n where n: "mx OR my OR mz = mask n" by blast
    have "mx XOR my XOR mz = mask n"
      using n by (simp add: xor3_eq_or3 [OF p(2,3,4)])
    then show ?thesis using g p n by blast
  qed
  have returns: "unat w \<le> 2 ^ 31 \<and> unat h \<le> 2 ^ 31 \<and> unat d \<le> 2 ^ 31 \<longrightarrow>
      (\<exists>mx my mz. generate_swizzle_masks w h d = Some (Inr (mx, my, mz)))"
    using generate_swizzle_masks_returns [of w h d] by blast
  show ?thesis
    using loop [of x y z b mb] ret returns generate_swizzle_masks_no_assert [of w h d]
    by blast
qed

theorem generate_swizzle_masks_postcondition_witness:
  "generate_swizzle_masks 4 4 1 = Some (Inr (5, 10, 0)) \<and>
   gen_loop 4 4 1 (0, 0, 0, 1, 1) = Some (5, 10, 0, 8, 16) \<and>
   unat (4 :: u32) \<le> 2 ^ 31 \<and> unat (1 :: u32) \<le> 2 ^ 31 \<and>
   (5 :: u32) AND 10 = 0 \<and> (10 :: u32) AND 0 = 0 \<and> (5 :: u32) AND 0 = 0 \<and>
   (\<exists>n. (5 :: u32) OR 10 OR 0 = mask n \<and> (5 :: u32) XOR 10 XOR 0 = mask n) \<and>
   (5 :: u32) XOR 10 XOR 0 = 16 - 1 \<and>
   (\<exists>mx my mz. generate_swizzle_masks 4 4 1 = Some (Inr (mx, my, mz)))"
proof -
  have h: "generate_swizzle_masks 4 4 1 = Some (Inr (5, 10, 0))"
    "gen_loop 4 4 1 (0, 0, 0, 1, 1) = Some (5, 10, 0, 8, 16)"
    by code_simp+
  have u: "unat (4 :: u32) \<le> 2 ^ 31" "unat (1 :: u32) \<le> 2 ^ 31"
    by simp_all
  show ?thesis
    using h u generate_swizzle_masks_postcondition [of 4 4 1 5 10 0 5 10 0 8 16] by simp
qed

text \<open>
  C6: termination fails for a dimension above \<open>2 ^ 31\<close>: \<open>bit\<close> is shifted out to zero,
  stays below the dimension, and the loop of \<open>generate_swizzle_masks\<close> runs forever; so
  do \<open>swizzle_box\<close> and \<open>unswizzle_box\<close>, which call it first. The input here is
  width \<open>2 ^ 31 + 1\<close>, height 1, depth 1.
\<close>

theorem generate_swizzle_masks_never_returns:
  "generate_swizzle_masks 0x80000001 1 1 = None \<and>
   swizzle_box src 0x80000001 1 1 dst row_pitch slice_pitch bytes_per_pixel = None \<and>
   unswizzle_box src 0x80000001 1 1 dst row_pitch slice_pitch bytes_per_pixel = None"
proof -
  have "generate_swizzle_masks 0x80000001 1 1 = None"
    by (rule generate_swizzle_masks_diverges) simp
  then show ?thesis by (simp add: swizzle_box_def unswizzle_box_def)
qed

text \<open>
  C8: an axis of dimension 1 receives mask 0 whenever the generator returns (and it returns
  when no dimension exceeds \<open>2 ^ 31\<close>); a zero mask contributes nothing, \<open>expand\<close> being
  0 for it. For 1 by 1 by 1 all masks are 0 and the pixel has swizzled offset 0; for 4 by 4
  by 1 the masks are 5, 10 and 0.
\<close>

theorem unit_axis_has_zero_mask:
  "(generate_swizzle_masks w h d = Some (Inr (mx, my, mz)) \<longrightarrow>
      (w = 1 \<longrightarrow> mx = 0) \<and> (h = 1 \<longrightarrow> my = 0) \<and> (d = 1 \<longrightarrow> mz = 0)) \<and>
   (unat w \<le> 2 ^ 31 \<and> unat h \<le> 2 ^ 31 \<and> unat d \<le> 2 ^ 31 \<longrightarrow>
      (\<exists>mx my mz. generate_swizzle_masks w h d = Some (Inr (mx, my, mz)))) \<and>
   expand v (make_expand_mask 0) = 0 \<and>
   generate_swizzle_masks 1 1 1 = Some (Inr (0, 0, 0)) \<and>
   get_swizzled_offset 0 0 0 (make_expand_mask 0) (make_expand_mask 0) (make_expand_mask 0)
     bytes_per_pixel = 0 \<and>
   generate_swizzle_masks 4 4 1 = Some (Inr (5, 10, 0))"
proof -
  have z: "expand u (make_expand_mask 0) = 0" for u
    by (simp add: expand_def make_expand_mask_def generate_expand_mask_moves_def)
  have e: "generate_swizzle_masks 1 1 1 = Some (Inr (0, 0, 0))"
    "generate_swizzle_masks 4 4 1 = Some (Inr (5, 10, 0))"
    by code_simp+
  have o: "get_swizzled_offset 0 0 0 (make_expand_mask 0) (make_expand_mask 0)
    (make_expand_mask 0) bytes_per_pixel = 0"
    by (simp add: get_swizzled_offset_def z)
  have u: "generate_swizzle_masks w h d = Some (Inr (mx, my, mz)) \<longrightarrow>
      (w = 1 \<longrightarrow> mx = 0) \<and> (h = 1 \<longrightarrow> my = 0) \<and> (d = 1 \<longrightarrow> mz = 0)"
    using generate_swizzle_masks_unit [of w h d mx my mz] by blast
  have r: "unat w \<le> 2 ^ 31 \<and> unat h \<le> 2 ^ 31 \<and> unat d \<le> 2 ^ 31 \<longrightarrow>
      (\<exists>mx my mz. generate_swizzle_masks w h d = Some (Inr (mx, my, mz)))"
    using generate_swizzle_masks_returns [of w h d] by blast
  show ?thesis using e o u r z [of v] by (simp only: simp_thms)
qed

theorem unit_axis_has_zero_mask_witness:
  "generate_swizzle_masks 1 4 4 = Some (Inr (0, 5, 10)) \<and> (1 :: u32) = 1 \<and> (0 :: u32) = 0 \<and>
   unat (1 :: u32) \<le> 2 ^ 31 \<and> unat (4 :: u32) \<le> 2 ^ 31 \<and>
   (\<exists>mx my mz. generate_swizzle_masks 1 4 4 = Some (Inr (mx, my, mz)))"
proof -
  have h: "generate_swizzle_masks 1 4 4 = Some (Inr (0, 5, 10))"
    by code_simp
  show ?thesis
    using h unit_axis_has_zero_mask [of 1 4 4 0 5 10] by simp
qed

section \<open>The copy loops\<close>

lemma for_loop_fold:
  "i \<le> n \<Longrightarrow> for_loop i n body s = fold body (map word_of_nat [unat i..<unat n]) s"
proof (induction k \<equiv> "unat n - unat i" arbitrary: i s)
  case 0
  then have "unat i = unat n" by (simp add: word_le_nat_alt)
  then have "i = n" by (simp add: word_unat_eq_iff)
  then show ?case by (subst for_loop.simps) simp
next
  case (Suc k)
  then have lt: "i < n" by (auto simp: word_less_nat_alt)
  then have u: "unat (i + 1) = Suc (unat i)" "unat i < unat n" by unat_arith+
  have le: "i + 1 \<le> n" using lt by (rule inc_le)
  have k: "k = unat n - unat (i + 1)" using Suc(2) u by simp
  have "[unat i..<unat n] = unat i # [unat (i + 1)..<unat n]"
    using u by (simp add: upt_conv_Cons)
  then show ?case
    using Suc(1) [OF k le] lt by (subst for_loop.simps) simp
qed

lemma for_loop_0: "for_loop 0 n body s = fold body (word_range n) s"
  using for_loop_fold [of 0 n body s] by (simp add: word_range_def)

lemma fold_concat_map: "fold f (concat (map g xs)) s = fold (\<lambda>x. fold f (g x)) xs s"
  by (induction xs arbitrary: s) auto

lemma unat_word_of_nat_u32: "k < 2 ^ 32 \<Longrightarrow> unat (word_of_nat k :: u32) = k"
  by (simp add: unat_of_nat)

lemma fold_slices:
  assumes "b \<le> 2 ^ 32"
  shows "fold (\<lambda>z (sb, m). (sb + p, F z sb m)) (map word_of_nat [0..<b]) (0, m0) =
    (b * p, fold (\<lambda>z. F z (unat z * p)) (map (word_of_nat :: nat \<Rightarrow> u32) [0..<b]) m0)"
  using assms
proof (induction b)
  case 0
  then show ?case by simp
next
  case (Suc b)
  then have "b < 2 ^ 32" by simp
  then have "unat (word_of_nat b :: u32) = b" by (rule unat_word_of_nat_u32)
  then show ?case using Suc by simp
qed

lemma unat_le_u32: "unat (w :: u32) \<le> 2 ^ 32"
  using unsigned_less [of w, where 'a = nat] by simp

lemma swizzle_box_fold:
  "swizzle_box src w h d dst rp sp bpp =
    (case generate_swizzle_masks w h d of
      None \<Rightarrow> None
    | Some (Inl e) \<Rightarrow> Some (Inl e)
    | Some (Inr masks) \<Rightarrow>
        Some (Inr (fold (swizzle_pixel src masks rp sp bpp) (box_coords w h d) dst)))"
proof (cases "generate_swizzle_masks w h d")
  case None
  then show ?thesis by (simp add: swizzle_box_def)
next
  case (Some r)
  show ?thesis
  proof (cases r)
    case (Inl e)
    then show ?thesis using Some by (simp add: swizzle_box_def)
  next
    case (Inr masks)
    obtain mx my mz where masks: "masks = (mx, my, mz)" by (cases masks)
    define F where "F = (\<lambda>z sb m.
      fold (\<lambda>y. fold (\<lambda>x m. memcpy m
          (unat (get_swizzled_offset x y z (make_expand_mask mx) (make_expand_mask my)
             (make_expand_mask mz) bpp))
          src (sb + unat (y * rp) + unat (x * bpp)) (unat bpp))
        (word_range w)) (word_range h) m)"
    have 1: "swizzle_box src w h d dst rp sp bpp =
      Some (Inr (snd (fold (\<lambda>z (sb, m). (sb + unat sp, F z sb m))
        (word_range d) (0, dst))))"
      unfolding swizzle_box_def Some Inr masks F_def for_loop_0 Let_def
      by (simp add: case_prod_beta)
    have 2: "fold (\<lambda>z. F z (unat z * unat sp)) (word_range d) dst =
      fold (swizzle_pixel src masks rp sp bpp) (box_coords w h d) dst"
      unfolding box_coords_def fold_concat_map fold_map F_def masks comp_def
      by (simp add: swizzle_pixel_def [abs_def] linear_address_def swizzled_address_def
          get_swizzled_offset_def)
    show ?thesis
      unfolding 1 word_range_def [of d] fold_slices [OF unat_le_u32]
      using 2 Some Inr by (simp add: word_range_def)
  qed
qed

lemma unswizzle_box_fold:
  "unswizzle_box src w h d dst rp sp bpp =
    (case generate_swizzle_masks w h d of
      None \<Rightarrow> None
    | Some (Inl e) \<Rightarrow> Some (Inl e)
    | Some (Inr masks) \<Rightarrow>
        Some (Inr (fold (unswizzle_pixel src masks rp sp bpp) (box_coords w h d) dst)))"
proof (cases "generate_swizzle_masks w h d")
  case None
  then show ?thesis by (simp add: unswizzle_box_def)
next
  case (Some r)
  show ?thesis
  proof (cases r)
    case (Inl e)
    then show ?thesis using Some by (simp add: unswizzle_box_def)
  next
    case (Inr masks)
    obtain mx my mz where masks: "masks = (mx, my, mz)" by (cases masks)
    define F where "F = (\<lambda>z db m.
      fold (\<lambda>y. fold (\<lambda>x m. memcpy m (db + unat (y * rp) + unat (x * bpp)) src
          (unat (get_swizzled_offset x y z (make_expand_mask mx) (make_expand_mask my)
             (make_expand_mask mz) bpp))
          (unat bpp))
        (word_range w)) (word_range h) m)"
    have 1: "unswizzle_box src w h d dst rp sp bpp =
      Some (Inr (snd (fold (\<lambda>z (db, m). (db + unat sp, F z db m))
        (word_range d) (0, dst))))"
      unfolding unswizzle_box_def Some Inr masks F_def for_loop_0 Let_def
      by (simp add: case_prod_beta)
    have 2: "fold (\<lambda>z. F z (unat z * unat sp)) (word_range d) dst =
      fold (unswizzle_pixel src masks rp sp bpp) (box_coords w h d) dst"
      unfolding box_coords_def fold_concat_map fold_map F_def masks comp_def
      by (simp add: unswizzle_pixel_def [abs_def] linear_address_def swizzled_address_def
          get_swizzled_offset_def)
    show ?thesis
      unfolding 1 word_range_def [of d] fold_slices [OF unat_le_u32]
      using 2 Some Inr by (simp add: word_range_def)
  qed
qed


lemma set_word_range: "set (word_range n) = {x. x < n}"
proof (rule set_eqI)
  fix x :: u32
  show "x \<in> set (word_range n) \<longleftrightarrow> x \<in> {x. x < n}"
  proof
    assume "x \<in> set (word_range n)"
    then obtain k where k: "k < unat n" "x = word_of_nat k" by (auto simp: word_range_def)
    have "k < 2 ^ 32" using k(1) unat_le_u32 [of n] by linarith
    then have "unat x = k" unfolding k(2) by (rule unat_word_of_nat_u32)
    then show "x \<in> {x. x < n}" using k(1) by (simp add: word_less_nat_alt)
  next
    assume "x \<in> {x. x < n}"
    then have "unat x \<in> set [0..<unat n]" by (simp add: word_less_nat_alt)
    then have "word_of_nat (unat x) \<in> set (word_range n)"
      unfolding word_range_def set_map by (rule imageI)
    then show "x \<in> set (word_range n)" by simp
  qed
qed

lemma distinct_word_range: "distinct (word_range n)"
proof -
  have "inj_on (word_of_nat :: nat \<Rightarrow> u32) (set [0..<unat n])"
  proof (rule inj_onI)
    fix a b
    assume a: "a \<in> set [0..<unat n]" and b: "b \<in> set [0..<unat n]"
      and e: "(word_of_nat a :: u32) = word_of_nat b"
    have "a < unat n" "b < unat n" using a b by simp_all
    then have l: "a < 2 ^ 32" "b < 2 ^ 32" using unat_le_u32 [of n] by linarith+
    have "unat (word_of_nat a :: u32) = a" using l(1) by (rule unat_word_of_nat_u32)
    moreover have "unat (word_of_nat b :: u32) = b" using l(2) by (rule unat_word_of_nat_u32)
    ultimately show "a = b" using e by metis
  qed
  then show ?thesis unfolding word_range_def distinct_map by (intro conjI distinct_upt)
qed

lemma distinct_concat_map:
  assumes "distinct xs" "\<And>x. x \<in> set xs \<Longrightarrow> distinct (g x)"
    and "\<And>x y. x \<in> set xs \<Longrightarrow> y \<in> set xs \<Longrightarrow> x \<noteq> y \<Longrightarrow> set (g x) \<inter> set (g y) = {}"
  shows "distinct (concat (map g xs))"
  using assms by (induction xs) auto

lemma set_coords:
  "set (concat (map (\<lambda>z. concat (map (\<lambda>y. map (\<lambda>x. (x, y, z)) xs) ys)) zs)) =
    {(x, y, z). x \<in> set xs \<and> y \<in> set ys \<and> z \<in> set zs}"
  by auto

lemma distinct_coords:
  assumes "distinct xs" "distinct ys" "distinct zs"
  shows "distinct (concat (map (\<lambda>z. concat (map (\<lambda>y. map (\<lambda>x. (x, y, z)) xs) ys)) zs))"
proof (rule distinct_concat_map [OF assms(3)])
  fix z
  show "distinct (concat (map (\<lambda>y. map (\<lambda>x. (x, y, z)) xs) ys))"
    by (rule distinct_concat_map [OF assms(2)])
      (use assms(1) in \<open>auto simp: distinct_map inj_on_def\<close>)
next
  fix z z' :: 'c
  assume "z \<noteq> z'"
  then show "set (concat (map (\<lambda>y. map (\<lambda>x. (x, y, z)) xs) ys)) \<inter>
    set (concat (map (\<lambda>y. map (\<lambda>x. (x, y, z')) xs) ys)) = {}"
    by auto
qed

lemma set_box_coords: "set (box_coords w h d) = {(x, y, z). x < w \<and> y < h \<and> z < d}"
  unfolding box_coords_def set_coords by (simp add: set_word_range)

lemma distinct_box_coords: "distinct (box_coords w h d)"
  unfolding box_coords_def by (intro distinct_coords distinct_word_range)

lemma for_loop_once: "for_loop 0 1 body s = body 0 s"
  by (simp add: for_loop_0 word_range_def)

lemma swizzle_box_depth_1:
  "swizzle_box src w h 1 dst rp s1 bpp = swizzle_box src w h 1 dst rp s2 bpp"
  unfolding swizzle_box_def for_loop_once
  by (simp add: Let_def split: option.splits sum.splits)

lemma unswizzle_box_depth_1:
  "unswizzle_box src w h 1 dst rp s1 bpp = unswizzle_box src w h 1 dst rp s2 bpp"
  unfolding unswizzle_box_def for_loop_once
  by (simp add: Let_def split: option.splits sum.splits)

lemma linear_address_plain:
  assumes "unat y * unat rp < 2 ^ 32" "unat x * unat bpp < 2 ^ 32"
  shows "linear_address rp sp bpp (x, y, z) =
    unat z * unat sp + unat y * unat rp + unat x * unat bpp"
proof -
  have "unat y * unat rp < 2 ^ LENGTH(32)" "unat x * unat bpp < 2 ^ LENGTH(32)"
    using assms by simp_all
  then have "unat (y * rp) = unat y * unat rp" "unat (x * bpp) = unat x * unat bpp"
    by (simp_all only: unat_mult_lem)
  then show ?thesis by (simp add: linear_address_def)
qed

lemma swizzled_address_offset:
  "swizzled_address (mx, my, mz) bpp (x, y, z) =
    unat (get_swizzled_offset x y z (make_expand_mask mx) (make_expand_mask my)
      (make_expand_mask mz) bpp)"
  by (simp add: swizzled_address_def get_swizzled_offset_def)

text \<open>
  C10: with depth 1 the result of \<open>swizzle_box\<close> and of \<open>unswizzle_box\<close> does not depend
  on \<open>slice_pitch\<close>: the base is advanced only after the single slice has been copied.
\<close>

theorem depth_1_ignores_slice_pitch:
  "swizzle_box src w h 1 dst rp s1 bpp = swizzle_box src w h 1 dst rp s2 bpp \<and>
   unswizzle_box src w h 1 dst rp s1 bpp = unswizzle_box src w h 1 dst rp s2 bpp"
  using swizzle_box_depth_1 [of src w h dst rp s1 bpp s2]
    unswizzle_box_depth_1 [of src w h dst rp s1 bpp s2]
  by (simp only: simp_thms)

section \<open>The bit scatter\<close>

lemma moves_loop_stage:
  assumes "i \<le> 5" "stage m i = (mk, mc)" "length mvs = 5"
  shows "moves_loop (int i) mk mc mvs = take i mvs @ map (move m) [i..<5]"
  using assms
proof (induction k \<equiv> "5 - i" arbitrary: i mk mc mvs)
  case 0
  then have "i = 5" by simp
  then show ?case using 0 by (subst moves_loop.simps) simp
next
  case (Suc k)
  then have i: "i < 5" by simp
  define mv where "mv = parallel_suffix mk AND mc"
  have mv: "mv = move m i" using Suc.prems(2) by (simp add: mv_def move_def)
  have st: "stage m (Suc i) = (mk AND NOT (parallel_suffix mk), (mc XOR mv) OR drop_bit (2 ^ i) mv)"
    using Suc.prems(2) by (simp add: mv_def)
  have "moves_loop (int i) mk mc mvs =
    moves_loop (int (Suc i)) (mk AND NOT (parallel_suffix mk)) ((mc XOR mv) OR drop_bit (2 ^ i) mv)
      (mvs[i := mv])"
    using i by (subst moves_loop.simps) (simp add: Let_def mv_def add.commute)
  also have "\<dots> = take (Suc i) (mvs[i := mv]) @ map (move m) [Suc i..<5]"
    using Suc.hyps(2) i Suc.prems(3) by (intro Suc.hyps(1) st) simp_all
  also have "take (Suc i) (mvs[i := mv]) = take i mvs @ [mv]"
    using i Suc.prems(3) by (simp add: take_Suc_conv_app_nth)
  finally show ?case using i by (simp add: mv upt_conv_Cons)
qed

lemma moves_make_expand_mask:
  "moves (make_expand_mask m) = [move m 0, move m 1, move m 2, move m 3, move m 4]"
proof -
  have "moves_loop (int 0) (push_bit 1 (NOT m)) m (replicate 5 0) =
    take 0 (replicate 5 0) @ map (move m) [0..<5]"
    by (rule moves_loop_stage) simp_all
  moreover have "[0..<5] = [0, 1, 2, 3, 4]" by (simp add: upt_rec)
  ultimately show ?thesis
    by (simp add: make_expand_mask_def generate_expand_mask_moves_def)
qed

lemma mask_make_expand_mask: "mask' (make_expand_mask m) = m"
  by (simp add: make_expand_mask_def generate_expand_mask_moves_def)

lemma expand_loop_partial:
  assumes "k \<le> 5" "mvs = [move m 0, move m 1, move m 2, move m 3, move m 4]"
  shows "expand_loop (4 - int k) mvs (partial_expand m v k) = partial_expand m v 5"
  using assms
proof (induction j \<equiv> "5 - k" arbitrary: k)
  case 0
  then have "k = 5" by simp
  then show ?case by (subst expand_loop.simps) simp
next
  case (Suc j)
  then have k: "k < 5" by simp
  then have n: "nat (4 - int k) = 4 - k" by simp
  have "k = 0 \<or> k = 1 \<or> k = 2 \<or> k = 3 \<or> k = 4" using k by arith
  then have "mvs ! (4 - k) = move m (4 - k)"
    unfolding Suc.prems(2) by auto
  then have "expand_loop (4 - int k) mvs (partial_expand m v k) =
    expand_loop (4 - int (Suc k)) mvs (partial_expand m v (Suc k))"
    using k by (subst expand_loop.simps) (simp add: Let_def n algebra_simps)
  also have "\<dots> = partial_expand m v 5"
    using Suc.hyps(2) k Suc.prems(2) by (intro Suc.hyps(1)) simp_all
  finally show ?case .
qed

lemma expand_partial_expand:
  "expand v (make_expand_mask m) = partial_expand m v 5 AND m"
  using expand_loop_partial [where k = 0 and m = m and v = v
      and mvs = "moves (make_expand_mask m)"]
  by (simp add: expand_def mask_make_expand_mask moves_make_expand_mask)

lemma window_parity_add:
  "window_parity w (n + k) j = (window_parity w n j \<noteq> (n \<le> j \<and> window_parity w k (j - n)))"
proof (induction k)
  case 0
  then show ?case by simp
next
  case (Suc k)
  have "n + k \<le> j \<longleftrightarrow> n \<le> j \<and> k \<le> j - n" by arith
  moreover have "j - (n + k) = j - n - k" by simp
  ultimately show ?case using Suc by auto
qed

lemma xor_shift_window:
  fixes v w :: u32
  assumes "\<And>j. bit v j \<longleftrightarrow> j < 32 \<and> window_parity w n j" and "m = n + n"
  shows "bit (v XOR push_bit n v) j \<longleftrightarrow> j < 32 \<and> window_parity w m j"
  unfolding assms(2) window_parity_add by (auto simp: bit_simps assms(1))

lemma parallel_suffix_window:
  "bit (parallel_suffix w) j \<longleftrightarrow> j < 32 \<and> window_parity w 32 j"
proof -
  define w1 where "w1 = w XOR push_bit 1 w"
  define w2 where "w2 = w1 XOR push_bit 2 w1"
  define w3 where "w3 = w2 XOR push_bit 4 w2"
  define w4 where "w4 = w3 XOR push_bit 8 w3"
  define w5 where "w5 = w4 XOR push_bit 16 w4"
  have 0: "bit w j \<longleftrightarrow> j < 32 \<and> window_parity w 1 j" for j
    by (auto dest: bit_imp_le_length)
  have 1: "bit w1 j \<longleftrightarrow> j < 32 \<and> window_parity w 2 j" for j
    unfolding w1_def by (rule xor_shift_window [OF 0]) simp
  have 2: "bit w2 j \<longleftrightarrow> j < 32 \<and> window_parity w 4 j" for j
    unfolding w2_def by (rule xor_shift_window [OF 1]) simp
  have 3: "bit w3 j \<longleftrightarrow> j < 32 \<and> window_parity w 8 j" for j
    unfolding w3_def by (rule xor_shift_window [OF 2]) simp
  have 4: "bit w4 j \<longleftrightarrow> j < 32 \<and> window_parity w 16 j" for j
    unfolding w4_def by (rule xor_shift_window [OF 3]) simp
  have 5: "bit w5 j \<longleftrightarrow> j < 32 \<and> window_parity w 32 j" for j
    unfolding w5_def by (rule xor_shift_window [OF 4]) simp
  have "parallel_suffix w = w5"
    unfolding parallel_suffix_def Let_def w5_def w4_def w3_def w2_def w1_def ..
  then show ?thesis using 5 by simp
qed

lemma window_parity_shift:
  "window_parity w (Suc n) (Suc j) = (bit w (Suc j) \<noteq> window_parity w n j)"
  by (induction n) auto

lemma window_parity_prefix: "window_parity w (Suc j) j = prefix_parity w j"
proof (induction j)
  case 0
  then show ?case by simp
next
  case (Suc j)
  then show ?case unfolding window_parity_shift [of w "Suc j" j] by auto
qed

lemma window_parity_full: "j < n \<Longrightarrow> window_parity w n j = prefix_parity w j"
proof (induction n)
  case 0
  then show ?case by simp
next
  case (Suc n)
  show ?case
  proof (cases "j = n")
    case True
    then show ?thesis by (simp only: window_parity_prefix)
  next
    case False
    then have "j < n" using Suc.prems by simp
    then show ?thesis using Suc.IH by simp
  qed
qed

lemma bit_parallel_suffix:
  "bit (parallel_suffix w) j \<longleftrightarrow> j < 32 \<and> prefix_parity w j"
  unfolding parallel_suffix_window using window_parity_full [of j 32 w] by auto


lemma zeros_below_le: "zeros_below m p \<le> p"
  by (induction p) auto

lemma zeros_below_mono: "q \<le> p \<Longrightarrow> zeros_below m q \<le> zeros_below m p"
  by (induction p) (auto simp: le_Suc_eq)

lemma zeros_below_step: "q \<le> p \<Longrightarrow> zeros_below m p \<le> zeros_below m q + (p - q)"
proof (induction p)
  case 0
  then show ?case by simp
next
  case (Suc p)
  show ?case
  proof (cases "q = Suc p")
    case True
    then show ?thesis by simp
  next
    case False
    then have "q \<le> p" using Suc.prems by simp
    then show ?thesis using Suc.IH by (simp add: Suc_diff_le)
  qed
qed

lemma rank_plus_zeros: "rank m p + zeros_below m p = p"
  by (induction p) auto

text \<open>Moving a mask bit down by the low part of its zero count keeps the high part.\<close>

lemma zeros_below_moved:
  assumes "0 < n"
  shows "zeros_below m (p - zeros_below m p mod n) div n = zeros_below m p div n"
proof -
  define c where "c = zeros_below m p"
  define q where "q = p - c mod n"
  have "c mod n \<le> c" by simp
  then have le: "c mod n \<le> p" using zeros_below_le [of m p] unfolding c_def by linarith
  then have qp: "q \<le> p" "p - q = c mod n" unfolding q_def by simp_all
  have up: "zeros_below m q \<le> c" unfolding c_def using qp(1) by (rule zeros_below_mono)
  have "c \<le> zeros_below m q + c mod n"
    using zeros_below_step [OF qp(1), of m] unfolding c_def [symmetric] qp(2) .
  then have "n * (c div n) \<le> zeros_below m q"
    using mult_div_mod_eq [of n c] by linarith
  then have "(n * (c div n)) div n \<le> zeros_below m q div n" by (rule div_le_mono)
  then have "c div n \<le> zeros_below m q div n" using assms by simp
  moreover have "zeros_below m q div n \<le> c div n" using up by (rule div_le_mono)
  ultimately show ?thesis unfolding q_def c_def by simp
qed

lemma mod_double_exp:
  "(c :: nat) mod 2 ^ Suc i = c mod 2 ^ i + (if odd (c div 2 ^ i) then 2 ^ i else 0)"
proof -
  have e: "c mod (2 ^ i * 2) = 2 ^ i * (c div 2 ^ i mod 2) + c mod 2 ^ i"
    by (rule mod_mult2_eq)
  show ?thesis
  proof (cases "odd (c div 2 ^ i)")
    case True
    then have "c div 2 ^ i mod 2 = 1" by (simp add: odd_iff_mod_2_eq_one)
    then show ?thesis using e True by (simp add: mult.commute)
  next
    case False
    then have "c div 2 ^ i mod 2 = 0" by simp
    then show ?thesis using e False by (simp add: mult.commute)
  qed
qed

lemma dvd_double_exp:
  "(2 :: nat) ^ Suc i dvd c \<longleftrightarrow> 2 ^ i dvd c \<and> even (c div 2 ^ i)"
proof -
  have "c mod 2 ^ Suc i = 0 \<longleftrightarrow> c mod 2 ^ i = 0 \<and> even (c div 2 ^ i)"
    unfolding mod_double_exp by auto
  then show ?thesis by (simp only: dvd_eq_mod_eq_0)
qed

lemma prefix_parity_stage:
  assumes mk: "\<And>j. bit mk j \<longleftrightarrow> 1 \<le> j \<and> j < 32 \<and> \<not> bit m (j - 1) \<and> 2 ^ i dvd zeros_below m j"
  shows "j < 32 \<Longrightarrow> prefix_parity mk j \<longleftrightarrow> odd (zeros_below m j div 2 ^ i)"
proof (induction j)
  case 0
  then show ?case by (simp add: mk)
next
  case (Suc j)
  then have ih: "prefix_parity mk j \<longleftrightarrow> odd (zeros_below m j div 2 ^ i)" by simp
  show ?case
  proof (cases "bit m j")
    case True
    then show ?thesis using ih Suc.prems by (simp add: mk)
  next
    case False
    define c where "c = zeros_below m j"
    have d: "Suc c div 2 ^ i = (if Suc c mod 2 ^ i = 0 then Suc (c div 2 ^ i) else c div 2 ^ i)"
      by (rule div_Suc)
    have z: "zeros_below m (Suc j) = Suc c" using False by (simp add: c_def)
    have b: "bit mk (Suc j) \<longleftrightarrow> 2 ^ i dvd Suc c"
      unfolding mk z using False Suc.prems by simp
    have p: "prefix_parity mk (Suc j) \<longleftrightarrow> (odd (c div 2 ^ i) \<noteq> (2 ^ i dvd Suc c))"
      using ih b by (simp add: c_def)
    show ?thesis
    proof (cases "(2 :: nat) ^ i dvd Suc c")
      case True
      then have "Suc c div 2 ^ i = Suc (c div 2 ^ i)" using d by (simp add: dvd_eq_mod_eq_0)
      then show ?thesis unfolding p z using True by simp
    next
      case False
      then have "Suc c div 2 ^ i = c div 2 ^ i" using d by (simp add: dvd_eq_mod_eq_0)
      then show ?thesis unfolding p z using False by simp
    qed
  qed
qed


lemma moved_position_Suc:
  fixes m :: u32
  defines "pos \<equiv> \<lambda>i p. p - zeros_below m p mod 2 ^ i"
  shows "odd (zeros_below m p div 2 ^ i) \<Longrightarrow> pos i p = pos (Suc i) p + 2 ^ i"
    and "even (zeros_below m p div 2 ^ i) \<Longrightarrow> pos (Suc i) p = pos i p"
proof -
  have le: "zeros_below m p mod 2 ^ Suc i \<le> p"
    using mod_less_eq_dividend [of "zeros_below m p" "2 ^ Suc i"] zeros_below_le [of m p]
    by (rule order_trans)
  show "pos i p = pos (Suc i) p + 2 ^ i" if "odd (zeros_below m p div 2 ^ i)"
  proof -
    have "zeros_below m p mod 2 ^ Suc i = zeros_below m p mod 2 ^ i + 2 ^ i"
      using that unfolding mod_double_exp by simp
    then show ?thesis using le unfolding pos_def by linarith
  qed
  show "pos (Suc i) p = pos i p" if "even (zeros_below m p div 2 ^ i)"
  proof -
    have "zeros_below m p mod 2 ^ Suc i = zeros_below m p mod 2 ^ i"
      using that unfolding mod_double_exp by simp
    then show ?thesis unfolding pos_def by simp
  qed
qed

lemma stage_inv_0: "stage_inv m 0"
proof -
  have a: "bit (push_bit 1 (NOT m)) j \<longleftrightarrow>
      1 \<le> j \<and> j < 32 \<and> \<not> bit m (j - 1) \<and> 2 ^ 0 dvd zeros_below m j" for j
    unfolding bit_push_bit_iff bit_not_iff by auto
  have b: "bit m q \<longleftrightarrow> (\<exists>p<32. bit m p \<and> q = p - zeros_below m p mod 2 ^ 0)" for q
    using bit_imp_le_length [of m q] by auto
  show ?thesis
    unfolding stage_inv_def stage.simps fst_conv snd_conv by (intro conjI allI a b)
qed

lemma stage_inv_Suc:
  assumes "stage_inv m i"
  shows "stage_inv m (Suc i)"
proof -
  obtain mk mc where st: "stage m i = (mk, mc)" by (cases "stage m i")
  define mp where "mp = parallel_suffix mk"
  define mv where "mv = mp AND mc"
  define pos where "pos = (\<lambda>i p. p - zeros_below m p mod 2 ^ i)"
  have mk: "bit mk j \<longleftrightarrow> 1 \<le> j \<and> j < 32 \<and> \<not> bit m (j - 1) \<and> 2 ^ i dvd zeros_below m j" for j
    using assms unfolding stage_inv_def st by simp
  have mc: "bit mc q \<longleftrightarrow> (\<exists>p<32. bit m p \<and> q = pos i p)" for q
    using assms unfolding stage_inv_def st pos_def by simp
  have mp: "bit mp j \<longleftrightarrow> j < 32 \<and> odd (zeros_below m j div 2 ^ i)" for j
    unfolding mp_def bit_parallel_suffix using prefix_parity_stage [of mk m i j, OF mk] by blast
  have mv: "bit mv q \<longleftrightarrow> bit mc q \<and> odd (zeros_below m q div 2 ^ i)" for q
    unfolding mv_def using bit_imp_le_length [of mc q] by (auto simp: bit_simps mp)
  have moved: "zeros_below m (pos i p) div 2 ^ i = zeros_below m p div 2 ^ i" for p
    unfolding pos_def by (rule zeros_below_moved) simp
  have st': "stage m (Suc i) = (mk AND NOT mp, (mc XOR mv) OR drop_bit (2 ^ i) mv)"
    by (simp add: st mp_def mv_def)
  have a: "bit (mk AND NOT mp) j \<longleftrightarrow>
      1 \<le> j \<and> j < 32 \<and> \<not> bit m (j - 1) \<and> 2 ^ Suc i dvd zeros_below m j" for j
    unfolding dvd_double_exp by (auto simp: bit_simps mk mp)
  have b: "bit ((mc XOR mv) OR drop_bit (2 ^ i) mv) q \<longleftrightarrow>
      (\<exists>p<32. bit m p \<and> q = pos (Suc i) p)" (is "?L \<longleftrightarrow> ?R") for q
  proof -
    have l: "?L \<longleftrightarrow> (bit mc q \<and> even (zeros_below m q div 2 ^ i)) \<or>
        (bit mc (2 ^ i + q) \<and> odd (zeros_below m (2 ^ i + q) div 2 ^ i))"
      by (auto simp: bit_simps mv)
    show ?thesis
    proof
      assume ?L
      then consider "bit mc q" "even (zeros_below m q div 2 ^ i)"
        | "bit mc (2 ^ i + q)" "odd (zeros_below m (2 ^ i + q) div 2 ^ i)"
        unfolding l by blast
      then show ?R
      proof cases
        case 1
        then obtain p where p: "p < 32" "bit m p" "q = pos i p" unfolding mc by blast
        have "even (zeros_below m p div 2 ^ i)" using 1(2) unfolding p(3) moved .
        then have "pos (Suc i) p = pos i p"
          unfolding pos_def by (rule moved_position_Suc(2))
        then show ?thesis using p by auto
      next
        case 2
        then obtain p where p: "p < 32" "bit m p" "2 ^ i + q = pos i p" unfolding mc by blast
        have "odd (zeros_below m p div 2 ^ i)" using 2(2) unfolding p(3) moved .
        then have "pos i p = pos (Suc i) p + 2 ^ i"
          unfolding pos_def by (rule moved_position_Suc(1))
        then have "q = pos (Suc i) p" using p(3) by simp
        then show ?thesis using p by auto
      qed
    next
      assume ?R
      then obtain p where p: "p < 32" "bit m p" "q = pos (Suc i) p" by blast
      have c: "bit mc (pos i p)" unfolding mc using p by blast
      show ?L
      proof (cases "odd (zeros_below m p div 2 ^ i)")
        case True
        then have "pos i p = pos (Suc i) p + 2 ^ i"
          unfolding pos_def by (rule moved_position_Suc(1))
        then have e: "2 ^ i + q = pos i p" using p(3) by simp
        show ?thesis unfolding l e using c True moved by simp
      next
        case False
        then have "even (zeros_below m p div 2 ^ i)" by simp
        then have "pos (Suc i) p = pos i p"
          unfolding pos_def by (rule moved_position_Suc(2))
        then have e: "q = pos i p" using p(3) by simp
        show ?thesis unfolding l unfolding e using c False moved by simp
      qed
    qed
  qed
  show ?thesis unfolding stage_inv_def st' fst_conv snd_conv using a b unfolding pos_def by blast
qed

lemma stage_inv: "stage_inv m i"
  by (induction i) (auto intro: stage_inv_0 stage_inv_Suc)

lemma bit_move:
  "bit (move m i) q \<longleftrightarrow>
    (\<exists>p<32. bit m p \<and> q = p - zeros_below m p mod 2 ^ i) \<and> odd (zeros_below m q div 2 ^ i)"
proof -
  obtain mk mc where st: "stage m i = (mk, mc)" by (cases "stage m i")
  have mk: "bit mk j \<longleftrightarrow> 1 \<le> j \<and> j < 32 \<and> \<not> bit m (j - 1) \<and> 2 ^ i dvd zeros_below m j" for j
    using stage_inv [of m i] unfolding stage_inv_def st by simp
  have mc: "bit mc q \<longleftrightarrow> (\<exists>p<32. bit m p \<and> q = p - zeros_below m p mod 2 ^ i)" for q
    using stage_inv [of m i] unfolding stage_inv_def st by simp
  have mp: "bit (parallel_suffix mk) j \<longleftrightarrow> j < 32 \<and> odd (zeros_below m j div 2 ^ i)" for j
    unfolding bit_parallel_suffix using prefix_parity_stage [of mk m i j, OF mk] by blast
  show ?thesis
    unfolding move_def st prod.case using bit_imp_le_length [of mc q]
    by (auto simp: bit_simps mp mc)
qed


lemma partial_expand_bit:
  assumes "p < 32" "bit m p"
  shows "k \<le> 5 \<Longrightarrow>
    bit (partial_expand m v k) (p - zeros_below m p mod 2 ^ (5 - k)) = bit v (rank m p)"
proof (induction k)
  case 0
  have "zeros_below m p < 2 ^ 5"
    using zeros_below_le [of m p] assms(1) by simp
  then have "p - zeros_below m p mod 2 ^ 5 = rank m p"
    using rank_plus_zeros [of m p] by simp
  then show ?case by simp
next
  case (Suc k)
  define i where "i = 4 - k"
  define x where "x = partial_expand m v k"
  define q where "q = p - zeros_below m p mod 2 ^ i"
  have i: "5 - Suc k = i" "5 - k = Suc i" using Suc.prems by (simp_all add: i_def)
  have ih: "bit x (p - zeros_below m p mod 2 ^ Suc i) = bit v (rank m p)"
    using Suc unfolding x_def i by simp
  have q: "q < 32" using assms(1) unfolding q_def by simp
  have moved: "zeros_below m q div 2 ^ i = zeros_below m p div 2 ^ i"
    unfolding q_def by (rule zeros_below_moved) simp
  have mv: "bit (move m i) q \<longleftrightarrow> odd (zeros_below m p div 2 ^ i)"
    unfolding bit_move moved using assms q_def by blast
  have new: "bit (partial_expand m v (Suc k)) q \<longleftrightarrow>
      (if bit (move m i) q then 2 ^ i \<le> q \<and> bit x (q - 2 ^ i) else bit x q)"
    unfolding partial_expand.simps i_def [symmetric] x_def [symmetric]
    using q by (auto simp: bit_simps)
  show ?case
  proof (cases "odd (zeros_below m p div 2 ^ i)")
    case True
    then have "q = p - zeros_below m p mod 2 ^ Suc i + 2 ^ i"
      unfolding q_def by (rule moved_position_Suc(1))
    then have "2 ^ i \<le> q" "q - 2 ^ i = p - zeros_below m p mod 2 ^ Suc i" by simp_all
    then show ?thesis unfolding i q_def [symmetric] new using mv True ih by simp
  next
    case False
    then have "even (zeros_below m p div 2 ^ i)" by simp
    then have "p - zeros_below m p mod 2 ^ Suc i = q"
      unfolding q_def by (rule moved_position_Suc(2))
    then show ?thesis unfolding i q_def [symmetric] new using mv False ih by simp
  qed
qed

text \<open>\<open>expand\<close> is the order-preserving bit deposit.\<close>

lemma bit_expand:
  "bit (expand v (make_expand_mask m)) p \<longleftrightarrow> bit m p \<and> bit v (rank m p)"
proof (cases "bit m p")
  case True
  then have p: "p < 32" using bit_imp_le_length [of m p] by simp
  have "bit (partial_expand m v 5) (p - zeros_below m p mod 2 ^ (5 - 5)) = bit v (rank m p)"
    using p True by (rule partial_expand_bit) simp
  then show ?thesis using True by (simp add: expand_partial_expand bit_simps)
next
  case False
  then show ?thesis by (simp add: expand_partial_expand bit_simps)
qed

lemma moves_generate_expand_mask_moves:
  assumes "length (moves em) = 5"
  shows "moves (generate_expand_mask_moves em) =
    [move (mask' em) 0, move (mask' em) 1, move (mask' em) 2, move (mask' em) 3, move (mask' em) 4]"
proof -
  have "moves_loop (int 0) (push_bit 1 (NOT (mask' em))) (mask' em) (moves em) =
    take 0 (moves em) @ map (move (mask' em)) [0..<5]"
    using _ _ assms by (rule moves_loop_stage) simp_all
  moreover have "[0..<5] = [0, 1, 2, 3, 4]" by (simp add: upt_rec)
  ultimately show ?thesis
    by (simp add: generate_expand_mask_moves_def)
qed

lemma bit_expand_generated:
  assumes "length (moves em) = 5"
  shows "bit (expand v (generate_expand_mask_moves em)) p \<longleftrightarrow>
    bit (mask' em) p \<and> bit v (rank (mask' em) p)"
proof -
  have "moves (generate_expand_mask_moves em) = moves (make_expand_mask (mask' em))"
    unfolding moves_generate_expand_mask_moves [OF assms] moves_make_expand_mask ..
  moreover have "mask' (generate_expand_mask_moves em) = mask' em"
    by (simp add: generate_expand_mask_moves_def)
  ultimately have "expand v (generate_expand_mask_moves em) = expand v (make_expand_mask (mask' em))"
    by (simp add: expand_def mask_make_expand_mask)
  then show ?thesis by (simp only: bit_expand)
qed

lemma rank_filter: "rank m p = length (filter (bit m) [0..<p])"
  by (induction p) auto

lemma nth_filter_upt:
  assumes "i < length (filter P [0..<n])"
  shows "P (filter P [0..<n] ! i) \<and> filter P [0..<n] ! i < n \<and>
    length (filter P [0..<filter P [0..<n] ! i]) = i"
  using assms
proof (induction n)
  case 0
  then show ?case by simp
next
  case (Suc n)
  show ?case
  proof (cases "i < length (filter P [0..<n])")
    case True
    then show ?thesis using Suc.IH by (auto simp: nth_append)
  next
    case False
    then have "P n" "i = length (filter P [0..<n])" using Suc.prems by (auto split: if_splits)
    then show ?thesis by (simp add: nth_append)
  qed
qed

lemma set_bit_positions_nth:
  assumes "i < length (set_bit_positions m)"
  shows "bit m (set_bit_positions m ! i)" "rank m (set_bit_positions m ! i) = i"
  using nth_filter_upt [of i "bit m" 32] assms
  unfolding set_bit_positions_def rank_filter by simp_all

lemma length_set_bit_positions: "length (set_bit_positions m) = popcount m"
  by (simp add: set_bit_positions_def popcount_def rank_filter)

lemma rank_less_popcount:
  assumes "bit m p"
  shows "rank m p < popcount m"
proof -
  have "p < 32" using assms bit_imp_le_length [of m p] by simp
  then have "rank m (Suc p) \<le> rank m 32" by (intro rank_mono) simp
  then show ?thesis using assms by (simp add: popcount_def)
qed

lemma expand_outside_mask: "expand v (make_expand_mask m) AND NOT m = 0"
  by (rule bit_eqI) (auto simp: bit_simps bit_expand)

lemma expand_take_bit:
  "expand (take_bit (popcount m) v) (make_expand_mask m) = expand v (make_expand_mask m)"
  by (rule bit_eqI) (auto simp: bit_simps bit_expand dest: rank_less_popcount)

lemma word_of_nat_mod_exp: "word_of_nat (unat v mod 2 ^ n) = take_bit n (v :: u32)"
proof -
  have "unat (take_bit n v) = take_bit n (unat v)" by (rule unsigned_take_bit_eq)
  also have "\<dots> = unat v mod 2 ^ n" by (rule take_bit_eq_mod)
  finally have "unat (take_bit n v) = unat v mod 2 ^ n" .
  then have "word_of_nat (unat v mod 2 ^ n) = (word_of_nat (unat (take_bit n v)) :: u32)"
    by simp
  then show ?thesis by simp
qed

text \<open>
  C3: with the move table built by \<open>generate_expand_mask_moves\<close> (for a struct whose array
  has its five entries), \<open>expand\<close> puts bit \<open>i\<close> of the value at the position of the
  \<open>i\<close>-th lowest set bit of the mask, for every \<open>i\<close> below the number of set bits, and
  leaves every bit outside the mask zero.
\<close>

theorem expand_deposits_bits_in_order:
  "(length (moves em) = 5 \<and> i < length (set_bit_positions (mask' em)) \<longrightarrow>
      bit (expand v (generate_expand_mask_moves em)) (set_bit_positions (mask' em) ! i) = bit v i) \<and>
   (length (moves em) = 5 \<and> \<not> bit (mask' em) p \<longrightarrow>
      \<not> bit (expand v (generate_expand_mask_moves em)) p) \<and>
   length (set_bit_positions (mask' em)) = popcount (mask' em)"
  using bit_expand_generated [of em v] set_bit_positions_nth [of i "mask' em"]
    length_set_bit_positions [of "mask' em"]
  by auto

theorem expand_deposits_bits_in_order_witness:
  "length (moves example_expand_mask) = 5 \<and>
   2 < length (set_bit_positions (mask' example_expand_mask)) \<and>
   bit (expand 13 (generate_expand_mask_moves example_expand_mask))
     (set_bit_positions (mask' example_expand_mask) ! 2) = bit (13 :: u32) 2 \<and>
   \<not> bit (mask' example_expand_mask) 0 \<and>
   \<not> bit (expand 13 (generate_expand_mask_moves example_expand_mask)) 0"
proof -
  have h1: "length (moves example_expand_mask) = 5"
    by (simp add: example_expand_mask_def)
  have h2: "2 < length (set_bit_positions (mask' example_expand_mask))"
    by code_simp
  have h3: "\<not> bit (mask' example_expand_mask) 0"
    by (simp add: example_expand_mask_def)
  show ?thesis
    using h1 h2 h3 expand_deposits_bits_in_order [of example_expand_mask 2 13 0] by blast
qed

text \<open>
  C9: \<open>expand\<close> is defined for every value and every mask; all bits of the result
  outside the mask are zero, and the result depends only on the low \<open>popcount mask\<close> bits of
  the value: reducing the value modulo \<open>2 ^ popcount mask\<close> does not change it.
\<close>

theorem expand_depends_on_low_bits_only:
  "expand v (make_expand_mask m) AND NOT m = 0 \<and>
   expand (word_of_nat (unat v mod 2 ^ popcount m)) (make_expand_mask m) =
     expand v (make_expand_mask m)"
  using expand_outside_mask [of v m] expand_take_bit [of m v]
  by (simp only: word_of_nat_mod_exp simp_thms)

section \<open>The bit deposit, executably\<close>

lemma rank_drop_bit:
  "rank m (Suc p) = (if bit m 0 then 1 else 0) + rank (drop_bit 1 m) p"
  by (induction p) (simp_all add: bit_simps)

lemma bit_deposit:
  "bit (deposit n m v) p \<longleftrightarrow> p < n \<and> bit m p \<and> bit v (rank m p)"
proof (induction n arbitrary: m v p)
  case 0
  then show ?case by simp
next
  case (Suc n)
  show ?case
  proof (cases "m = 0")
    case True
    then show ?thesis by simp
  next
    case m: False
    show ?thesis
    proof (cases p)
      case 0
      have "bit (deposit (Suc n) m v) 0 \<longleftrightarrow> bit m 0 \<and> bit v 0"
      proof (cases "bit m 0")
        case True
        have "bit ((v AND 1) OR push_bit 1 (deposit n (drop_bit 1 m) (drop_bit 1 v))) 0
          \<longleftrightarrow> bit v 0"
          unfolding bit_or_iff bit_and_iff bit_push_bit_iff bit_1_iff by simp
        then show ?thesis
          using m True unfolding deposit.simps by (simp only: if_False if_True simp_thms)
      next
        case False
        have "\<not> bit (push_bit 1 (deposit n (drop_bit 1 m) v)) 0"
          unfolding bit_push_bit_iff by simp
        then show ?thesis
          using m False unfolding deposit.simps by (simp only: if_False simp_thms)
      qed
      then show ?thesis unfolding 0 by simp
    next
      case (Suc p')
      have b: "bit (drop_bit 1 m) p' \<longleftrightarrow> bit m (Suc p')" by (simp add: bit_simps)
      have l: "bit m (Suc p') \<Longrightarrow> Suc p' < 32" using bit_imp_le_length [of m "Suc p'"] by simp
      have v: "bit (drop_bit 1 v) k \<longleftrightarrow> bit v (Suc k)" for k by (simp add: bit_simps)
      show ?thesis
      proof (cases "bit m 0")
        case True
        have "bit (deposit (Suc n) m v) p \<longleftrightarrow>
          bit (push_bit 1 (deposit n (drop_bit 1 m) (drop_bit 1 v))) (Suc p')"
          using m True unfolding Suc deposit.simps
          by (simp only: if_False if_True bit_or_iff bit_and_iff) (simp add: bit_simps)
        also have "\<dots> \<longleftrightarrow> Suc p' < 32 \<and> bit (deposit n (drop_bit 1 m) (drop_bit 1 v)) p'"
          unfolding bit_push_bit_iff by auto
        also have "\<dots> \<longleftrightarrow> Suc p' < Suc n \<and> bit m (Suc p') \<and> bit v (rank m (Suc p'))"
          unfolding Suc.IH b v rank_drop_bit [of m p'] using True l by auto
        finally show ?thesis unfolding Suc .
      next
        case False
        have "bit (deposit (Suc n) m v) p \<longleftrightarrow>
          bit (push_bit 1 (deposit n (drop_bit 1 m) v)) (Suc p')"
          using m False unfolding Suc deposit.simps by (simp only: if_False)
        also have "\<dots> \<longleftrightarrow> Suc p' < 32 \<and> bit (deposit n (drop_bit 1 m) v) p'"
          unfolding bit_push_bit_iff by auto
        also have "\<dots> \<longleftrightarrow> Suc p' < Suc n \<and> bit m (Suc p') \<and> bit v (rank m (Suc p'))"
          unfolding Suc.IH b rank_drop_bit [of m p'] using False l by auto
        finally show ?thesis unfolding Suc .
      qed
    qed
  qed
qed

lemma expand_deposit: "expand v (make_expand_mask m) = deposit 32 m v"
  by (rule bit_eqI) (auto simp: bit_expand bit_deposit dest: bit_imp_le_length)

lemma deposit_unfold:
  "deposit n m v =
    (if n = 0 \<or> m = 0 then 0
     else if bit m 0 then (v AND 1) OR push_bit 1 (deposit (n - 1) (drop_bit 1 m) (drop_bit 1 v))
     else push_bit 1 (deposit (n - 1) (drop_bit 1 m) v))"
  by (cases n) simp_all

section \<open>The offset map\<close>

lemma expand_injective:
  assumes "expand v (make_expand_mask m) = expand v' (make_expand_mask m)"
  shows "take_bit (popcount m) v = take_bit (popcount m) v'"
proof (rule bit_eqI)
  fix i
  show "bit (take_bit (popcount m) v) i \<longleftrightarrow> bit (take_bit (popcount m) v') i"
  proof (cases "i < popcount m")
    case True
    then have i: "i < length (set_bit_positions m)" by (simp add: length_set_bit_positions)
    define p where "p = set_bit_positions m ! i"
    have p: "bit m p" "rank m p = i" unfolding p_def by (rule set_bit_positions_nth [OF i])+
    have "bit (expand v (make_expand_mask m)) p \<longleftrightarrow> bit (expand v' (make_expand_mask m)) p"
      using assms by simp
    then have "bit v i \<longleftrightarrow> bit v' i" unfolding bit_expand p by (simp add: p(1))
    then show ?thesis using True by (simp add: bit_simps)
  next
    case False
    then show ?thesis by (simp add: bit_simps)
  qed
qed

lemma take_bit_small:
  fixes x :: u32
  assumes "unat x < 2 ^ n"
  shows "take_bit n x = x"
proof -
  have "unat (take_bit n x) = take_bit n (unat x)" by (rule unsigned_take_bit_eq)
  also have "\<dots> = unat x" using assms by (rule take_bit_nat_eq_self)
  finally show ?thesis by (simp only: word_unat_eq_iff)
qed

lemma unat_take_bit_less:
  fixes x :: u32
  assumes "take_bit n x = x"
  shows "unat x < 2 ^ n"
proof -
  have "unat (take_bit n x) = take_bit n (unat x)" by (rule unsigned_take_bit_eq)
  then have "unat x = take_bit n (unat x)" unfolding assms .
  then show ?thesis by (metis take_bit_nat_less_exp)
qed

lemma disjoint_bits:
  fixes a b :: u32
  assumes "a AND b = 0"
  shows "\<not> (bit a p \<and> bit b p)"
proof -
  have "bit (a AND b) p \<longleftrightarrow> bit (0 :: u32) p" using assms by simp
  then show ?thesis by (simp add: bit_simps)
qed

lemma swizzled_index_and:
  assumes "mx AND my = 0" "my AND mz = 0" "mx AND mz = 0"
  shows "swizzled_index (mx, my, mz) (x, y, z) AND mx = expand x (make_expand_mask mx)"
    and "swizzled_index (mx, my, mz) (x, y, z) AND my = expand y (make_expand_mask my)"
    and "swizzled_index (mx, my, mz) (x, y, z) AND mz = expand z (make_expand_mask mz)"
  unfolding swizzled_index_def prod.case
  using disjoint_bits [OF assms(1)] disjoint_bits [OF assms(2)] disjoint_bits [OF assms(3)]
  by (auto intro!: bit_eqI simp: bit_simps bit_expand)

lemma swizzled_index_inj:
  assumes dj: "mx AND my = 0" "my AND mz = 0" "mx AND mz = 0"
    and fit: "unat w \<le> 2 ^ popcount mx" "unat h \<le> 2 ^ popcount my" "unat d \<le> 2 ^ popcount mz"
  shows "inj_on (swizzled_index (mx, my, mz)) (box w h d)"
proof (rule inj_onI)
  fix c c'
  assume c: "c \<in> box w h d" and c': "c' \<in> box w h d"
    and e: "swizzled_index (mx, my, mz) c = swizzled_index (mx, my, mz) c'"
  obtain x y z where cc: "c = (x, y, z)" by (cases c)
  obtain x' y' z' where cc': "c' = (x', y', z')" by (cases c')
  have lt: "unat x < 2 ^ popcount mx" "unat x' < 2 ^ popcount mx"
    "unat y < 2 ^ popcount my" "unat y' < 2 ^ popcount my"
    "unat z < 2 ^ popcount mz" "unat z' < 2 ^ popcount mz"
    using c c' fit unfolding cc cc' box_def by (auto simp: word_less_nat_alt)
  have "expand x (make_expand_mask mx) = expand x' (make_expand_mask mx)"
    "expand y (make_expand_mask my) = expand y' (make_expand_mask my)"
    "expand z (make_expand_mask mz) = expand z' (make_expand_mask mz)"
    using arg_cong [OF e [unfolded cc cc'], of "\<lambda>i. i AND mx"]
      arg_cong [OF e [unfolded cc cc'], of "\<lambda>i. i AND my"]
      arg_cong [OF e [unfolded cc cc'], of "\<lambda>i. i AND mz"]
    unfolding swizzled_index_and [OF dj] by blast+
  then have "take_bit (popcount mx) x = take_bit (popcount mx) x'"
    "take_bit (popcount my) y = take_bit (popcount my) y'"
    "take_bit (popcount mz) z = take_bit (popcount mz) z'"
    by (auto intro: expand_injective)
  then show "c = c'"
    unfolding cc cc' using lt by (simp add: take_bit_small)
qed

lemma swizzled_index_bound:
  assumes "mx OR my OR mz = mask n"
  shows "unat (swizzled_index (mx, my, mz) c) < 2 ^ n"
proof -
  obtain x y z where c: "c = (x, y, z)" by (cases c)
  have m: "bit mx p \<or> bit my p \<or> bit mz p \<Longrightarrow> p < n" for p
  proof -
    have "bit (mx OR my OR mz) p \<longleftrightarrow> bit (mask n :: u32) p" using assms by simp
    then show "bit mx p \<or> bit my p \<or> bit mz p \<Longrightarrow> p < n" by (simp add: bit_simps)
  qed
  have "take_bit n (swizzled_index (mx, my, mz) c) = swizzled_index (mx, my, mz) c"
    unfolding c swizzled_index_def prod.case
    using m by (auto intro!: bit_eqI simp: bit_simps bit_expand)
  then show ?thesis by (rule unat_take_bit_less)
qed


lemma card_below: "card {x :: u32. x < w} = unat w"
proof -
  have "card (set (word_range w)) = length (word_range w)"
    using distinct_word_range by (rule distinct_card)
  moreover have "length (word_range w) = unat w" by (simp add: word_range_def)
  ultimately show ?thesis unfolding set_word_range by simp
qed

lemma card_box: "card (box w h d) = unat w * unat h * unat d"
proof -
  have "box w h d = {x. x < w} \<times> {y. y < h} \<times> {z. z < d}"
    unfolding box_def by auto
  then show ?thesis by (simp add: card_cartesian_product card_below)
qed

lemma finite_box: "finite (box w h d)"
  by simp

lemma exp_le_31: "a \<le> 31 \<Longrightarrow> (2 :: nat) ^ a \<le> 2 ^ 31"
  by (rule power_increasing) simp_all

lemma box_masks:
  assumes dims: "unat w \<le> 2 ^ a" "unat h \<le> 2 ^ b" "unat d \<le> 2 ^ c"
    and exps: "a \<le> 31" "b \<le> 31" "c \<le> 31" "a + b + c \<le> 32"
  shows "\<exists>mx my mz. generate_swizzle_masks w h d = Some (Inr (mx, my, mz)) \<and>
    mx OR my OR mz = mask (popcount mx + popcount my + popcount mz) \<and>
    mx AND my = 0 \<and> my AND mz = 0 \<and> mx AND mz = 0 \<and>
    popcount mx = axis_bits (unat w) 32 \<and> popcount my = axis_bits (unat h) 32 \<and>
    popcount mz = axis_bits (unat d) 32 \<and>
    popcount mx \<le> a \<and> popcount my \<le> b \<and> popcount mz \<le> c \<and>
    unat w \<le> 2 ^ popcount mx \<and> unat h \<le> 2 ^ popcount my \<and> unat d \<le> 2 ^ popcount mz"
proof -
  have le: "unat w \<le> 2 ^ 31" "unat h \<le> 2 ^ 31" "unat d \<le> 2 ^ 31"
    using dims exps(1-3) [THEN exp_le_31] by linarith+
  have ab: "axis_bits (unat w) 32 \<le> a" "axis_bits (unat h) 32 \<le> b" "axis_bits (unat d) 32 \<le> c"
    using dims by (auto intro: axis_bits_bound)
  then have tot: "axis_bits (unat w) 32 + axis_bits (unat h) 32 + axis_bits (unat d) 32 \<le> 32"
    using exps(4) by linarith
  from generate_swizzle_masks_fit [OF le tot]
  obtain mx my mz where m: "generate_swizzle_masks w h d = Some (Inr (mx, my, mz))"
    "mx OR my OR mz = mask (axis_bits (unat w) 32 + axis_bits (unat h) 32 + axis_bits (unat d) 32)"
    "mx AND my = 0" "my AND mz = 0" "mx AND mz = 0"
    "popcount mx = axis_bits (unat w) 32" "popcount my = axis_bits (unat h) 32"
    "popcount mz = axis_bits (unat d) 32"
    by blast
  have "unat w \<le> 2 ^ popcount mx" "unat h \<le> 2 ^ popcount my" "unat d \<le> 2 ^ popcount mz"
    unfolding m(6-8) by (rule axis_bits_covers_u32)+
  then show ?thesis using m ab by (intro exI [of _ mx] exI [of _ my] exI [of _ mz]) simp
qed

lemma axis_bits_power:
  assumes "unat (w :: u32) = 2 ^ a"
  shows "axis_bits (unat w) 32 = a"
proof -
  have "axis_bits (unat w) 32 \<le> a" using assms by (intro axis_bits_bound) simp
  moreover have "(2 :: nat) ^ a \<le> 2 ^ axis_bits (unat w) 32"
    using axis_bits_covers_u32 [of w] unfolding assms .
  then have "a \<le> axis_bits (unat w) 32" by (rule power_le_imp_le_exp [rotated]) simp
  ultimately show ?thesis by simp
qed

lemma swizzled_index_image:
  assumes inj: "inj_on (swizzled_index masks) (box w h d)"
    and bound: "\<And>c. unat (swizzled_index masks c) < unat w * unat h * unat d"
  shows "unat ` swizzled_index masks ` box w h d = {0..<unat w * unat h * unat d}"
proof (rule card_subset_eq)
  show "finite {0..<unat w * unat h * unat d}" by simp
  show "unat ` swizzled_index masks ` box w h d \<subseteq> {0..<unat w * unat h * unat d}"
    using bound by auto
  have "inj_on unat (swizzled_index masks ` box w h d)"
    by (rule inj_onI) (simp add: word_unat_eq_iff)
  then have "card (unat ` swizzled_index masks ` box w h d) = card (swizzled_index masks ` box w h d)"
    by (rule card_image)
  also have "\<dots> = card (box w h d)" using inj by (rule card_image)
  finally show "card (unat ` swizzled_index masks ` box w h d) = card {0..<unat w * unat h * unat d}"
    by (simp add: card_box)
qed

lemma swizzled_index_bijection:
  assumes dims: "unat w \<le> 2 ^ a" "unat h \<le> 2 ^ b" "unat d \<le> 2 ^ c"
    and exps: "a \<le> 31" "b \<le> 31" "c \<le> 31" "a + b + c \<le> 32"
  shows "\<exists>masks. generate_swizzle_masks w h d = Some (Inr masks) \<and>
    inj_on (swizzled_index masks) (box w h d) \<and>
    (\<forall>q. unat (swizzled_index masks q) < 2 ^ (a + b + c)) \<and>
    (unat w = 2 ^ a \<and> unat h = 2 ^ b \<and> unat d = 2 ^ c \<longrightarrow>
      unat ` swizzled_index masks ` box w h d = {0..<unat w * unat h * unat d})"
proof -
  from box_masks [OF assms]
  obtain mx my mz where m: "generate_swizzle_masks w h d = Some (Inr (mx, my, mz))"
    "mx OR my OR mz = mask (popcount mx + popcount my + popcount mz)"
    "mx AND my = 0" "my AND mz = 0" "mx AND mz = 0"
    "popcount mx \<le> a" "popcount my \<le> b" "popcount mz \<le> c"
    "unat w \<le> 2 ^ popcount mx" "unat h \<le> 2 ^ popcount my" "unat d \<le> 2 ^ popcount mz"
    by blast
  have inj: "inj_on (swizzled_index (mx, my, mz)) (box w h d)"
    using m(3-5) m(9-11) by (rule swizzled_index_inj)
  have bound: "unat (swizzled_index (mx, my, mz) q) < 2 ^ (a + b + c)" for q
  proof -
    have "unat (swizzled_index (mx, my, mz) q) < 2 ^ (popcount mx + popcount my + popcount mz)"
      using m(2) by (rule swizzled_index_bound)
    moreover have "(2 :: nat) ^ (popcount mx + popcount my + popcount mz) \<le> 2 ^ (a + b + c)"
      using m(6-8) by (intro power_increasing) simp_all
    ultimately show ?thesis by linarith
  qed
  have "unat ` swizzled_index (mx, my, mz) ` box w h d = {0..<unat w * unat h * unat d}"
    if "unat w = 2 ^ a \<and> unat h = 2 ^ b \<and> unat d = 2 ^ c"
  proof (rule swizzled_index_image [OF inj])
    fix q
    have "unat w * unat h * unat d = 2 ^ (a + b + c)" using that by (simp add: power_add)
    then show "unat (swizzled_index (mx, my, mz) q) < unat w * unat h * unat d"
      using bound [of q] by simp
  qed
  then show ?thesis using m(1) inj bound by blast
qed

text \<open>
  C2, as stated, fails for dimensions that are not powers of two: for a 3 by 2 by 1 box the
  masks are 5, 2 and 0, the coordinate \<open>(2, 1, 0)\<close> has offset 6, and 6 is not below
  \<open>3 * 2 * 1\<close>. It also fails when the masks need more than 32 bits: for a 65537 by 65537 by
  1 box the seventeenth bit of each axis is shifted out of \<open>mask_bit\<close>, and the coordinates
  \<open>(65536, 0, 0)\<close> and \<open>(0, 0, 0)\<close> have the same offset.
\<close>

theorem offset_map_not_bijective:
  "generate_swizzle_masks 3 2 1 = Some (Inr (5, 2, 0)) \<and>
   (2, 1, 0) \<in> box 3 2 1 \<and>
   unat (swizzled_index (5, 2, 0) (2, 1, 0)) = 6 \<and>
   unat (3 :: u32) * unat (2 :: u32) * unat (1 :: u32) = 6 \<and>
   unat ` swizzled_index (5, 2, 0) ` box 3 2 1 \<noteq>
     {0..<unat (3 :: u32) * unat (2 :: u32) * unat (1 :: u32)} \<and>
   generate_swizzle_masks 65537 65537 1 = Some (Inr (0x55555555, 0xAAAAAAAA, 0)) \<and>
   (65536, 0, 0) \<in> box 65537 65537 1 \<and> (0, 0, 0) \<in> box 65537 65537 1 \<and>
   swizzled_index (0x55555555, 0xAAAAAAAA, 0) (65536, 0, 0) =
     swizzled_index (0x55555555, 0xAAAAAAAA, 0) (0, 0, 0) \<and>
   \<not> inj_on (swizzled_index (0x55555555, 0xAAAAAAAA, 0)) (box 65537 65537 1)"
proof -
  have m: "generate_swizzle_masks 3 2 1 = Some (Inr (5, 2, 0))" by code_simp
  have b: "(2, 1, 0) \<in> box 3 2 1" by (simp add: box_def)
  have i: "unat (swizzled_index (5, 2, 0) (2, 1, 0)) = 6"
    by (simp add: swizzled_index_def expand_deposit deposit_unfold)
  have n: "unat (3 :: u32) * unat (2 :: u32) * unat (1 :: u32) = 6" by simp
  have "6 \<in> unat ` swizzled_index (5, 2, 0) ` box 3 2 1"
    using b i by (metis imageI)
  moreover have "6 \<notin> {0..<unat (3 :: u32) * unat (2 :: u32) * unat (1 :: u32)}"
    unfolding n by simp
  ultimately have g: "unat ` swizzled_index (5, 2, 0) ` box 3 2 1 \<noteq>
    {0..<unat (3 :: u32) * unat (2 :: u32) * unat (1 :: u32)}"
    by metis
  have m': "generate_swizzle_masks 65537 65537 1 = Some (Inr (0x55555555, 0xAAAAAAAA, 0))"
    by code_simp
  have b': "(65536, 0, 0) \<in> box 65537 65537 1" "(0, 0, 0) \<in> box 65537 65537 1"
    by (simp_all add: box_def)
  have e: "swizzled_index (0x55555555, 0xAAAAAAAA, 0) (65536, 0, 0) =
    swizzled_index (0x55555555, 0xAAAAAAAA, 0) (0, 0, 0)"
    by (simp add: swizzled_index_def expand_deposit deposit_unfold)
  have "((65536, 0, 0) :: u32 \<times> u32 \<times> u32) \<noteq> (0, 0, 0)" by simp
  then have ni: "\<not> inj_on (swizzled_index (0x55555555, 0xAAAAAAAA, 0)) (box 65537 65537 1)"
    using b' e by (metis inj_onD)
  show ?thesis using m b i n g m' b' e ni by (simp only: simp_thms)
qed

text \<open>
  C2, amended: when \<open>2 ^ a\<close>, \<open>2 ^ b\<close>, \<open>2 ^ c\<close> bound the dimensions, with \<open>a\<close>, \<open>b\<close>,
  \<open>c\<close> at most 31 and \<open>a + b + c\<close> at most 32, the generator returns masks, the offset map
  is injective on the box and every offset is below \<open>2 ^ (a + b + c)\<close>; when the dimensions
  are these powers of two, the image of the box is exactly \<open>[0, width * height * depth)\<close>.
\<close>

theorem swizzled_offsets_injective:
  assumes "unat w \<le> 2 ^ a" "unat h \<le> 2 ^ b" "unat d \<le> 2 ^ c"
    and "a \<le> 31" "b \<le> 31" "c \<le> 31" "a + b + c \<le> 32"
  shows "\<exists>masks. generate_swizzle_masks w h d = Some (Inr masks) \<and>
    inj_on (swizzled_index masks) (box w h d) \<and>
    (\<forall>q. unat (swizzled_index masks q) < 2 ^ (a + b + c)) \<and>
    (unat w = 2 ^ a \<and> unat h = 2 ^ b \<and> unat d = 2 ^ c \<longrightarrow>
      unat ` swizzled_index masks ` box w h d = {0..<unat w * unat h * unat d})"
  using assms by (rule swizzled_index_bijection)

theorem swizzled_offsets_injective_witness:
  "unat (4 :: u32) \<le> 2 ^ 2 \<and> unat (1 :: u32) \<le> 2 ^ 0 \<and> (2 :: nat) \<le> 31 \<and> (0 :: nat) \<le> 31 \<and>
   (2 :: nat) + 2 + 0 \<le> 32 \<and> unat (4 :: u32) = 2 ^ 2 \<and> unat (1 :: u32) = 2 ^ 0 \<and>
   (\<exists>masks. generate_swizzle_masks 4 4 1 = Some (Inr masks) \<and>
      inj_on (swizzled_index masks) (box 4 4 1) \<and>
      unat ` swizzled_index masks ` box 4 4 1 = {0..<unat (4 :: u32) * unat (4 :: u32) * unat (1 :: u32)})"
proof -
  have h: "unat (4 :: u32) \<le> 2 ^ 2" "unat (1 :: u32) \<le> 2 ^ 0" "(2 :: nat) \<le> 31" "(0 :: nat) \<le> 31"
    "(2 :: nat) + 2 + 0 \<le> 32" "unat (4 :: u32) = 2 ^ 2" "unat (1 :: u32) = 2 ^ 0"
    by simp_all
  from swizzled_offsets_injective [OF h(1) h(1) h(2) h(3) h(3) h(4) h(5)] h(6,7)
  have "\<exists>masks. generate_swizzle_masks 4 4 1 = Some (Inr masks) \<and>
      inj_on (swizzled_index masks) (box 4 4 1) \<and>
      unat ` swizzled_index masks ` box 4 4 1 = {0..<unat (4 :: u32) * unat (4 :: u32) * unat (1 :: u32)}"
    by blast
  then show ?thesis using h by (simp only: simp_thms)
qed

section \<open>The round trip\<close>

lemma swizzled_address_index:
  "swizzled_address masks bpp c = unat (bpp * swizzled_index masks c)"
  by (simp add: swizzled_address_def swizzled_index_def split: prod.splits)

lemma memcpy_apply:
  "memcpy dst d src s n a = (if d \<le> a \<and> a < d + n then src (s + (a - d)) else dst a)"
  by (simp add: memcpy_def)

lemma fold_copy_other:
  assumes "\<And>c. c \<in> set cs \<Longrightarrow> \<not> (dst_at c \<le> a \<and> a < dst_at c + n)"
  shows "fold (\<lambda>c m. memcpy m (dst_at c) src (src_at c) n) cs S a = S a"
  using assms
proof (induction cs arbitrary: S)
  case Nil
  then show ?case by simp
next
  case (Cons c0 cs)
  have "fold (\<lambda>c m. memcpy m (dst_at c) src (src_at c) n) cs
      (memcpy S (dst_at c0) src (src_at c0) n) a = memcpy S (dst_at c0) src (src_at c0) n a"
    using Cons.prems by (intro Cons.IH) simp
  also have "\<dots> = S a"
    using Cons.prems [of c0] by (auto simp: memcpy_apply)
  finally show ?case by simp
qed

lemma fold_copy_hit:
  assumes "c \<in> set cs" "k < n"
    and "\<And>c1 c2. c1 \<in> set cs \<Longrightarrow> c2 \<in> set cs \<Longrightarrow> c1 \<noteq> c2 \<Longrightarrow>
      dst_at c1 + n \<le> dst_at c2 \<or> dst_at c2 + n \<le> dst_at c1"
  shows "fold (\<lambda>c m. memcpy m (dst_at c) src (src_at c) n) cs S (dst_at c + k) = src (src_at c + k)"
  using assms
proof (induction cs arbitrary: S)
  case Nil
  then show ?case by simp
next
  case (Cons c0 cs)
  show ?case
  proof (cases "c \<in> set cs")
    case True
    then show ?thesis using Cons.prems(2,3) by (simp add: Cons.IH)
  next
    case False
    then have c: "c = c0" using Cons.prems(1) by simp
    have "fold (\<lambda>c m. memcpy m (dst_at c) src (src_at c) n) cs
        (memcpy S (dst_at c0) src (src_at c0) n) (dst_at c0 + k) =
      memcpy S (dst_at c0) src (src_at c0) n (dst_at c0 + k)"
    proof (rule fold_copy_other)
      fix c'
      assume c': "c' \<in> set cs"
      then have "c' \<noteq> c0" using False c by auto
      then have "dst_at c' + n \<le> dst_at c0 \<or> dst_at c0 + n \<le> dst_at c'"
        using c' by (intro Cons.prems(3)) simp_all
      then show "\<not> (dst_at c' \<le> dst_at c0 + k \<and> dst_at c0 + k < dst_at c' + n)"
        using Cons.prems(2) by linarith
    qed
    also have "\<dots> = src (src_at c0 + k)"
      using Cons.prems(2) by (simp add: memcpy_apply)
    finally show ?thesis by (simp add: c)
  qed
qed

lemma fold_copy_back:
  assumes "\<And>c k. c \<in> set cs \<Longrightarrow> k < n \<Longrightarrow> S (src_at c + k) = B (dst_at c + k)"
  shows "fold (\<lambda>c m. memcpy m (dst_at c) S (src_at c) n) cs D a =
    (if \<exists>c k. c \<in> set cs \<and> k < n \<and> a = dst_at c + k then B a else D a)"
  using assms
proof (induction cs arbitrary: D)
  case Nil
  then show ?case by simp
next
  case (Cons c0 cs)
  define D1 where "D1 = memcpy D (dst_at c0) S (src_at c0) n"
  define P where "P \<longleftrightarrow> (\<exists>c k. c \<in> set cs \<and> k < n \<and> a = dst_at c + k)"
  define Q where "Q \<longleftrightarrow> (\<exists>k. k < n \<and> a = dst_at c0 + k)"
  have ih: "fold (\<lambda>c m. memcpy m (dst_at c) S (src_at c) n) cs D1 a = (if P then B a else D1 a)"
    unfolding P_def using Cons.prems by (intro Cons.IH) simp_all
  have d1: "D1 a = (if Q then B a else D a)"
  proof (cases "dst_at c0 \<le> a \<and> a < dst_at c0 + n")
    case True
    define k where "k = a - dst_at c0"
    have k: "k < n" "a = dst_at c0 + k" using True unfolding k_def by linarith+
    then have Q unfolding Q_def by blast
    have "D1 a = S (src_at c0 + k)" using True by (simp add: D1_def memcpy_apply k_def)
    also have "\<dots> = B a" using Cons.prems [of c0 k] k by simp
    finally show ?thesis using \<open>Q\<close> by simp
  next
    case False
    then have "D1 a = D a" by (auto simp: D1_def memcpy_apply)
    moreover have "\<not> Q" unfolding Q_def using False by auto
    ultimately show ?thesis by simp
  qed
  have R: "(\<exists>c k. c \<in> set (c0 # cs) \<and> k < n \<and> a = dst_at c + k) \<longleftrightarrow> P \<or> Q"
    unfolding P_def Q_def by auto
  have "fold (\<lambda>c m. memcpy m (dst_at c) S (src_at c) n) (c0 # cs) D a =
    fold (\<lambda>c m. memcpy m (dst_at c) S (src_at c) n) cs D1 a"
    by (simp add: D1_def)
  also have "\<dots> = (if P \<or> Q then B a else D a)" unfolding ih d1 by simp
  finally show ?case unfolding R .
qed

lemma swizzle_pixel_eq:
  "swizzle_pixel B masks rp sp bpp =
    (\<lambda>c m. memcpy m (swizzled_address masks bpp c) B (linear_address rp sp bpp c) (unat bpp))"
  by (simp add: fun_eq_iff swizzle_pixel_def)

lemma unswizzle_pixel_eq:
  "unswizzle_pixel S masks rp sp bpp =
    (\<lambda>c m. memcpy m (linear_address rp sp bpp c) S (swizzled_address masks bpp c) (unat bpp))"
  by (simp add: fun_eq_iff unswizzle_pixel_def)


lemma swizzled_address_product:
  assumes bound: "\<And>q. unat (swizzled_index masks q) < 2 ^ n"
    and fit: "unat bpp * 2 ^ n \<le> 2 ^ 32"
  shows "swizzled_address masks bpp q = unat bpp * unat (swizzled_index masks q)"
proof -
  have "unat bpp * unat (swizzled_index masks q) < 2 ^ 32"
  proof (cases "unat bpp = 0")
    case True
    then show ?thesis by simp
  next
    case False
    then have "unat bpp * unat (swizzled_index masks q) < unat bpp * 2 ^ n"
      using bound [of q] by simp
    then show ?thesis using fit by linarith
  qed
  then have "unat bpp * unat (swizzled_index masks q) < 2 ^ LENGTH(32)" by simp
  then show ?thesis unfolding swizzled_address_index by (simp only: unat_mult_lem)
qed

lemma swizzled_range_below:
  assumes bound: "\<And>q. unat (swizzled_index masks q) < 2 ^ n"
    and fit: "unat bpp * 2 ^ n \<le> 2 ^ 32"
  shows "swizzled_address masks bpp q + unat bpp \<le> unat bpp * 2 ^ n"
proof -
  have "Suc (unat (swizzled_index masks q)) \<le> 2 ^ n" using bound [of q] by simp
  then have "unat bpp * Suc (unat (swizzled_index masks q)) \<le> unat bpp * 2 ^ n"
    by (rule mult_le_mono2)
  then show ?thesis unfolding swizzled_address_product [OF assms] by simp
qed

lemma swizzled_ranges_disjoint:
  assumes inj: "inj_on (swizzled_index masks) (box w h d)"
    and bound: "\<And>q. unat (swizzled_index masks q) < 2 ^ n"
    and fit: "unat bpp * 2 ^ n \<le> 2 ^ 32"
    and c: "c1 \<in> box w h d" "c2 \<in> box w h d" "c1 \<noteq> c2"
  shows "swizzled_address masks bpp c1 + unat bpp \<le> swizzled_address masks bpp c2 \<or>
    swizzled_address masks bpp c2 + unat bpp \<le> swizzled_address masks bpp c1"
proof -
  define i1 where "i1 = unat (swizzled_index masks c1)"
  define i2 where "i2 = unat (swizzled_index masks c2)"
  have prod: "swizzled_address masks bpp q = unat bpp * unat (swizzled_index masks q)" for q
    using bound fit by (rule swizzled_address_product)
  have "swizzled_index masks c1 \<noteq> swizzled_index masks c2"
    using inj c by (auto dest: inj_onD)
  then have "i1 \<noteq> i2" unfolding i1_def i2_def by (simp add: word_unat_eq_iff)
  then consider "Suc i1 \<le> i2" | "Suc i2 \<le> i1" by linarith
  then show ?thesis
  proof cases
    case 1
    then have "unat bpp * Suc i1 \<le> unat bpp * i2" by (rule mult_le_mono2)
    then show ?thesis unfolding prod i1_def [symmetric] i2_def [symmetric] by simp
  next
    case 2
    then have "unat bpp * Suc i2 \<le> unat bpp * i1" by (rule mult_le_mono2)
    then show ?thesis unfolding prod i1_def [symmetric] i2_def [symmetric] by simp
  qed
qed

lemma exp_le_32_imp:
  assumes "1 \<le> (n :: nat)" "n * 2 ^ k \<le> 2 ^ 32"
  shows "k \<le> 32"
proof -
  have "(2 :: nat) ^ k \<le> n * 2 ^ k" using assms(1) by simp
  then have "(2 :: nat) ^ k \<le> 2 ^ 32" using assms(2) by linarith
  then show ?thesis by (rule power_le_imp_le_exp [rotated]) simp
qed

lemma round_trip_pixels:
  assumes dims: "unat w \<le> 2 ^ a" "unat h \<le> 2 ^ b" "unat d \<le> 2 ^ c"
    and exps: "a \<le> 31" "b \<le> 31" "c \<le> 31"
    and bpp: "1 \<le> unat bpp" "unat bpp * 2 ^ (a + b + c) \<le> 2 ^ 32"
  shows "\<exists>S D. swizzle_box B w h d S0 rp sp bpp = Some (Inr S) \<and>
    (\<forall>addr. unat bpp * 2 ^ (a + b + c) \<le> addr \<longrightarrow> S addr = S0 addr) \<and>
    round_trip B w h d rp sp bpp S0 D0 = Some (Inr D) \<and>
    (\<forall>addr. D addr = (if addr \<in> pixel_bytes w h d rp sp bpp then B addr else D0 addr))"
proof -
  have "a + b + c \<le> 32" using bpp by (rule exp_le_32_imp)
  from swizzled_index_bijection [OF dims exps this]
  obtain masks where m: "generate_swizzle_masks w h d = Some (Inr masks)"
    and inj: "inj_on (swizzled_index masks) (box w h d)"
    and bound: "\<And>q. unat (swizzled_index masks q) < 2 ^ (a + b + c)"
    by blast
  define S where "S = fold (swizzle_pixel B masks rp sp bpp) (box_coords w h d) S0"
  define D where "D = fold (unswizzle_pixel S masks rp sp bpp) (box_coords w h d) D0"
  have cs: "set (box_coords w h d) = box w h d" by (simp add: set_box_coords box_def)
  have sw: "swizzle_box B w h d S0 rp sp bpp = Some (Inr S)"
    unfolding swizzle_box_fold m S_def by simp
  have un: "unswizzle_box S w h d D0 rp sp bpp = Some (Inr D)"
    unfolding unswizzle_box_fold m D_def by simp
  have rt: "round_trip B w h d rp sp bpp S0 D0 = Some (Inr D)"
    unfolding round_trip_def sw using un by simp
  have hit: "S (swizzled_address masks bpp q + k) = B (linear_address rp sp bpp q + k)"
    if "q \<in> set (box_coords w h d)" "k < unat bpp" for q k
    unfolding S_def swizzle_pixel_eq using that
  proof (rule fold_copy_hit)
    fix c1 c2
    assume "c1 \<in> set (box_coords w h d)" "c2 \<in> set (box_coords w h d)" "c1 \<noteq> c2"
    then show "swizzled_address masks bpp c1 + unat bpp \<le> swizzled_address masks bpp c2 \<or>
      swizzled_address masks bpp c2 + unat bpp \<le> swizzled_address masks bpp c1"
      unfolding cs by (intro swizzled_ranges_disjoint [OF inj bound bpp(2)])
  qed
  have outside: "S addr = S0 addr" if "unat bpp * 2 ^ (a + b + c) \<le> addr" for addr
    unfolding S_def swizzle_pixel_eq
  proof (rule fold_copy_other)
    fix q
    show "\<not> (swizzled_address masks bpp q \<le> addr \<and>
      addr < swizzled_address masks bpp q + unat bpp)"
      using swizzled_range_below [OF bound bpp(2), of q] that by linarith
  qed
  have "D addr = (if addr \<in> pixel_bytes w h d rp sp bpp then B addr else D0 addr)" for addr
  proof -
    have "D addr = (if \<exists>q k. q \<in> set (box_coords w h d) \<and> k < unat bpp \<and>
        addr = linear_address rp sp bpp q + k then B addr else D0 addr)"
      unfolding D_def unswizzle_pixel_eq using hit by (rule fold_copy_back)
    moreover have "(\<exists>q k. q \<in> set (box_coords w h d) \<and> k < unat bpp \<and>
        addr = linear_address rp sp bpp q + k) \<longleftrightarrow> addr \<in> pixel_bytes w h d rp sp bpp"
      unfolding cs pixel_bytes_def by blast
    ultimately show ?thesis by simp
  qed
  then show ?thesis using rt sw outside by blast
qed

lemma mixed_radix:
  fixes W H n :: nat
  shows "addr = ((addr div n div W div H) * (H * (W * n)) + (addr div n div W mod H) * (W * n)
    + (addr div n mod W) * n) + addr mod n"
proof -
  define t where "t = addr div n"
  define u where "u = t div W"
  have e1: "t * n + addr mod n = addr" unfolding t_def by simp
  have e2: "u * W + t mod W = t" unfolding u_def by simp
  have e3: "(u div H) * H + u mod H = u" by simp
  have g: "(a * (H * (W * n)) + b * (W * n) + c * n) + k = ((a * H + b) * W + c) * n + k"
    for a b c k :: nat
    by (simp add: algebra_simps)
  have "((u div H) * (H * (W * n)) + (u mod H) * (W * n) + (t mod W) * n) + addr mod n =
    (((u div H) * H + u mod H) * W + t mod W) * n + addr mod n"
    by (rule g)
  also have "\<dots> = addr" unfolding e3 e2 e1 ..
  finally show ?thesis unfolding u_def t_def by (rule sym)
qed

lemma unat_lt_u32: "unat (w :: u32) < 2 ^ 32"
  using unsigned_less [of w, where 'a = nat] by simp

lemma tight_pitches_cover:
  assumes rp: "unat rp = unat w * unat bpp" and sp: "unat sp = unat h * unat rp"
    and addr: "addr < unat w * unat h * unat d * unat bpp"
  shows "addr \<in> pixel_bytes w h d rp sp bpp"
proof -
  define n where "n = unat bpp"
  define x where "x = addr div n mod unat w"
  define y where "y = addr div n div unat w mod unat h"
  define z where "z = addr div n div unat w div unat h"
  define k where "k = addr mod n"
  have pos: "0 < n" "0 < unat w" "0 < unat h"
    using addr unfolding n_def by (auto intro: Nat.gr0I)
  have k: "k < n" unfolding k_def using pos by simp
  have x: "x < unat w" unfolding x_def using pos by simp
  have y: "y < unat h" unfolding y_def using pos by simp
  have "addr div n < unat w * unat h * unat d"
    using addr pos unfolding n_def by (simp add: less_mult_imp_div_less)
  then have "addr div n div unat w < unat h * unat d"
    by (simp add: less_mult_imp_div_less mult.commute mult.left_commute)
  then have z: "z < unat d" unfolding z_def
    by (simp add: less_mult_imp_div_less mult.commute)
  have b32: "x < 2 ^ 32" "y < 2 ^ 32" "z < 2 ^ 32"
    using x y z unat_le_u32 [of w] unat_le_u32 [of h] unat_le_u32 [of d] by linarith+
  define x' :: u32 where "x' = word_of_nat x"
  define y' :: u32 where "y' = word_of_nat y"
  define z' :: u32 where "z' = word_of_nat z"
  have u: "unat x' = x" "unat y' = y" "unat z' = z"
    unfolding x'_def y'_def z'_def using b32 by (auto intro: unat_word_of_nat_u32)
  have inbox: "(x', y', z') \<in> box w h d"
    unfolding box_def using x y z u by (simp add: word_less_nat_alt)
  have "x * unat bpp < unat w * unat bpp" using x pos unfolding n_def by simp
  then have "x * unat bpp < 2 ^ 32" using unat_lt_u32 [of rp] unfolding rp by linarith
  then have "unat x' * unat bpp < 2 ^ LENGTH(32)" unfolding u by simp
  then have px: "unat (x' * bpp) = x * n"
    unfolding n_def u(1) [symmetric] by (simp only: unat_mult_lem)
  have "y * unat rp < unat h * unat rp" using y pos rp unfolding n_def by simp
  then have "y * unat rp < 2 ^ 32" using unat_lt_u32 [of sp] unfolding sp by linarith
  then have "unat y' * unat rp < 2 ^ LENGTH(32)" unfolding u by simp
  then have py: "unat (y' * rp) = y * (unat w * n)"
    unfolding n_def rp [symmetric] u(2) [symmetric] by (simp only: unat_mult_lem)
  have "linear_address rp sp bpp (x', y', z') = z * (unat h * (unat w * n)) + y * (unat w * n) + x * n"
    unfolding linear_address_def prod.case px py u sp rp n_def ..
  then have "addr = linear_address rp sp bpp (x', y', z') + k"
    unfolding x_def y_def z_def k_def using mixed_radix [of addr n "unat w" "unat h"] by simp
  then show ?thesis unfolding pixel_bytes_def using inbox k unfolding n_def by blast
qed

lemma pixel_byte_address:
  assumes "x < w" "y < h" "z < d" "k < unat bpp"
  shows "unat z * unat sp + unat (y * rp) + unat (x * bpp) + k \<in> pixel_bytes w h d rp sp bpp"
proof -
  have "(x, y, z) \<in> box w h d" using assms by (simp add: box_def)
  moreover have "unat z * unat sp + unat (y * rp) + unat (x * bpp) + k =
      linear_address rp sp bpp (x, y, z) + k"
    by (simp add: linear_address_def)
  ultimately show ?thesis unfolding pixel_bytes_def using assms(4) by blast
qed

lemma column_offset_plain:
  fixes x w bpp :: u32
  assumes "x < w" "unat w \<le> 2 ^ a" "1 \<le> unat bpp" "unat bpp * 2 ^ (a + b + c) \<le> 2 ^ 32"
  shows "unat (x * bpp) = unat x * unat bpp"
proof -
  have "unat x < unat w" using assms(1) by (simp add: word_less_nat_alt)
  then have "unat x < 2 ^ a" using assms(2) by linarith
  then have "unat x * unat bpp < 2 ^ a * unat bpp" using assms(3) by simp
  moreover have "(2 :: nat) ^ a \<le> 2 ^ (a + b + c)" by simp
  then have "2 ^ a * unat bpp \<le> 2 ^ (a + b + c) * unat bpp" by (rule mult_le_mono1)
  moreover have "2 ^ (a + b + c) * unat bpp = unat bpp * 2 ^ (a + b + c)" by (rule mult.commute)
  ultimately have "unat x * unat bpp < 2 ^ 32" using assms(4) by linarith
  then have "unat x * unat bpp < 2 ^ LENGTH(32)" by simp
  then show ?thesis by (simp only: unat_mult_lem)
qed

lemma row_offset_plain:
  fixes y h rp :: u32
  assumes "y < h" "(unat h - 1) * unat rp < 2 ^ 32"
  shows "unat (y * rp) = unat y * unat rp"
proof -
  have "unat y < unat h" using assms(1) by (simp add: word_less_nat_alt)
  then have "unat y \<le> unat h - 1" by linarith
  then have "unat y * unat rp \<le> (unat h - 1) * unat rp" by (rule mult_le_mono1)
  then have "unat y * unat rp < 2 ^ 32" using assms(2) by linarith
  then have "unat y * unat rp < 2 ^ LENGTH(32)" by simp
  then show ?thesis by (simp only: unat_mult_lem)
qed

text \<open>
  C1, as stated, fails when the swizzled offsets do not fit the 32-bit offset the code
  computes. For a 1 by 1 by 3 box of pixels of \<open>2 ^ 31\<close> bytes, with pitches \<open>2 ^ 31\<close>, the
  offset of the third pixel, \<open>2 * 2 ^ 31\<close>, wraps to 0 and the third pixel overwrites the
  first: after the round trip byte 0 holds byte \<open>2 ^ 32\<close> of the source (here 0), not its
  byte 0 (here 1).
\<close>

theorem round_trip_loses_pixel_on_offset_overflow:
  "read_byte (round_trip marked_buffer 1 1 3 0x80000000 0x80000000 0x80000000
     zero_buffer zero_buffer) 0 = Some 0 \<and>
   marked_buffer 0 = 1"
proof -
  have m: "generate_swizzle_masks 1 1 3 = Some (Inr (0, 0, 3))" by code_simp
  have c: "box_coords 1 1 3 = [(0, 0, 0), (0, 0, 1), (0, 0, 2)]"
    by (simp add: box_coords_def word_range_def upt_rec)
  have "read_byte (round_trip marked_buffer 1 1 3 0x80000000 0x80000000 0x80000000
     zero_buffer zero_buffer) 0 = Some 0"
    unfolding round_trip_def swizzle_box_fold unswizzle_box_fold m c
    by (simp add: read_byte_def swizzle_pixel_def unswizzle_pixel_def memcpy_def
        linear_address_def swizzled_address_def expand_deposit deposit_unfold
        marked_buffer_def zero_buffer_def)
  then show ?thesis by (simp add: marked_buffer_def)
qed

text \<open>
  C1, amended: when \<open>2 ^ a\<close>, \<open>2 ^ b\<close>, \<open>2 ^ c\<close> bound the dimensions, with \<open>a\<close>, \<open>b\<close>,
  \<open>c\<close> at most 31, and \<open>bytes_per_pixel * 2 ^ (a + b + c)\<close> is at most \<open>2 ^ 32\<close> (with
  \<open>bytes_per_pixel\<close> at least 1), \<open>swizzle_box\<close> followed by \<open>unswizzle_box\<close> with the same
  dimensions, pitches and pixel size returns, and the resulting linear buffer holds the byte
  of the source at every byte of every pixel and its previous content everywhere else. The
  bytes of the pixel at \<open>(x, y, z)\<close> are those the code addresses: offsets
  \<open>z * slice_pitch + (y * row_pitch) mod 2 ^ 32 + x * bytes_per_pixel + k\<close> with
  \<open>k < bytes_per_pixel\<close>, the row offset being the 32-bit product of the code; when
  \<open>(height - 1) * row_pitch\<close> is below \<open>2 ^ 32\<close> this is the plain offset
  \<open>z * slice_pitch + y * row_pitch + x * bytes_per_pixel + k\<close>. With tight pitches
  (\<open>row_pitch = width * bytes_per_pixel\<close> and \<open>slice_pitch = height * row_pitch\<close>) the pixels
  fill the buffer: all of its \<open>width * height * depth * bytes_per_pixel\<close> bytes are those of
  the source. The swizzled buffer is written below offset
  \<open>bytes_per_pixel * 2 ^ (a + b + c)\<close> only.
\<close>

theorem round_trip_restores_every_pixel:
  assumes "unat w \<le> 2 ^ a" "unat h \<le> 2 ^ b" "unat d \<le> 2 ^ c"
    and "a \<le> 31" "b \<le> 31" "c \<le> 31"
    and "1 \<le> unat bpp" "unat bpp * 2 ^ (a + b + c) \<le> 2 ^ 32"
  shows "\<exists>S D. swizzle_box B w h d tmp rp sp bpp = Some (Inr S) \<and>
    (\<forall>addr. unat bpp * 2 ^ (a + b + c) \<le> addr \<longrightarrow> S addr = tmp addr) \<and>
    round_trip B w h d rp sp bpp tmp dst = Some (Inr D) \<and>
    (\<forall>addr. D addr = (if addr \<in> pixel_bytes w h d rp sp bpp then B addr else dst addr)) \<and>
    (\<forall>x y z k. x < w \<and> y < h \<and> z < d \<and> k < unat bpp \<longrightarrow>
      D (unat z * unat sp + unat (y * rp) + unat x * unat bpp + k) =
      B (unat z * unat sp + unat (y * rp) + unat x * unat bpp + k)) \<and>
    ((unat h - 1) * unat rp < 2 ^ 32 \<longrightarrow>
      (\<forall>x y z k. x < w \<and> y < h \<and> z < d \<and> k < unat bpp \<longrightarrow>
        D (unat z * unat sp + unat y * unat rp + unat x * unat bpp + k) =
        B (unat z * unat sp + unat y * unat rp + unat x * unat bpp + k))) \<and>
    (unat rp = unat w * unat bpp \<and> unat sp = unat h * unat rp \<longrightarrow>
      (\<forall>addr < unat w * unat h * unat d * unat bpp. D addr = B addr))"
proof -
  from round_trip_pixels [OF assms]
  obtain S D where D: "round_trip B w h d rp sp bpp tmp dst = Some (Inr D)"
    "\<And>addr. D addr = (if addr \<in> pixel_bytes w h d rp sp bpp then B addr else dst addr)"
    and S: "swizzle_box B w h d tmp rp sp bpp = Some (Inr S)"
    "\<forall>addr. unat bpp * 2 ^ (a + b + c) \<le> addr \<longrightarrow> S addr = tmp addr"
    by blast
  have tight: "D addr = B addr"
    if "unat rp = unat w * unat bpp \<and> unat sp = unat h * unat rp"
      and "addr < unat w * unat h * unat d * unat bpp" for addr
    using that tight_pitches_cover [of rp w bpp sp h addr d] D(2) [of addr] by simp
  have wrapped: "D (unat z * unat sp + unat (y * rp) + unat x * unat bpp + k) =
      B (unat z * unat sp + unat (y * rp) + unat x * unat bpp + k)"
    if "x < w \<and> y < h \<and> z < d \<and> k < unat bpp" for x y z k
  proof -
    have "unat z * unat sp + unat (y * rp) + unat (x * bpp) + k \<in> pixel_bytes w h d rp sp bpp"
      using that by (intro pixel_byte_address) simp_all
    moreover have "unat (x * bpp) = unat x * unat bpp"
      using that assms(1,7,8) by (intro column_offset_plain [where w = w]) simp_all
    ultimately show ?thesis using D(2) by simp
  qed
  have plain: "D (unat z * unat sp + unat y * unat rp + unat x * unat bpp + k) =
      B (unat z * unat sp + unat y * unat rp + unat x * unat bpp + k)"
    if "(unat h - 1) * unat rp < 2 ^ 32" and "x < w \<and> y < h \<and> z < d \<and> k < unat bpp" for x y z k
  proof -
    have "unat (y * rp) = unat y * unat rp"
      using that by (intro row_offset_plain [where h = h]) simp_all
    then show ?thesis using wrapped [OF that(2)] by simp
  qed
  show ?thesis
  proof (intro exI conjI)
    show "swizzle_box B w h d tmp rp sp bpp = Some (Inr S)" by (fact S(1))
    show "\<forall>addr. unat bpp * 2 ^ (a + b + c) \<le> addr \<longrightarrow> S addr = tmp addr" by (fact S(2))
    show "round_trip B w h d rp sp bpp tmp dst = Some (Inr D)" by (fact D(1))
    show "\<forall>addr. D addr = (if addr \<in> pixel_bytes w h d rp sp bpp then B addr else dst addr)"
      using D(2) by blast
    show "\<forall>x y z k. x < w \<and> y < h \<and> z < d \<and> k < unat bpp \<longrightarrow>
      D (unat z * unat sp + unat (y * rp) + unat x * unat bpp + k) =
      B (unat z * unat sp + unat (y * rp) + unat x * unat bpp + k)"
      using wrapped by blast
    show "(unat h - 1) * unat rp < 2 ^ 32 \<longrightarrow>
      (\<forall>x y z k. x < w \<and> y < h \<and> z < d \<and> k < unat bpp \<longrightarrow>
        D (unat z * unat sp + unat y * unat rp + unat x * unat bpp + k) =
        B (unat z * unat sp + unat y * unat rp + unat x * unat bpp + k))"
      using plain by blast
    show "unat rp = unat w * unat bpp \<and> unat sp = unat h * unat rp \<longrightarrow>
      (\<forall>addr < unat w * unat h * unat d * unat bpp. D addr = B addr)"
      using tight by blast
  qed
qed

theorem round_trip_restores_every_pixel_witness:
  "unat (2 :: u32) \<le> 2 ^ 1 \<and> unat (1 :: u32) \<le> 2 ^ 0 \<and> (1 :: nat) \<le> 31 \<and> (0 :: nat) \<le> 31 \<and>
   1 \<le> unat (1 :: u32) \<and> unat (1 :: u32) * 2 ^ (1 + 1 + 0) \<le> 2 ^ 32 \<and>
   (unat (2 :: u32) - 1) * unat (2 :: u32) < 2 ^ 32 \<and>
   unat (2 :: u32) = unat (2 :: u32) * unat (1 :: u32) \<and>
   unat (4 :: u32) = unat (2 :: u32) * unat (2 :: u32) \<and>
   (1 :: u32) < 2 \<and> (0 :: u32) < 1 \<and> 0 < unat (1 :: u32) \<and>
   (\<exists>S D. swizzle_box marked_buffer 2 2 1 zero_buffer 2 4 1 = Some (Inr S) \<and>
      round_trip marked_buffer 2 2 1 2 4 1 zero_buffer zero_buffer = Some (Inr D) \<and>
      (\<forall>addr. D addr =
        (if addr \<in> pixel_bytes 2 2 1 2 4 1 then marked_buffer addr else zero_buffer addr)) \<and>
      D (unat (0 :: u32) * unat (4 :: u32) + unat (1 :: u32) * unat (2 :: u32)
          + unat (1 :: u32) * unat (1 :: u32) + 0) =
        marked_buffer (unat (0 :: u32) * unat (4 :: u32) + unat (1 :: u32) * unat (2 :: u32)
          + unat (1 :: u32) * unat (1 :: u32) + 0) \<and>
      (\<forall>addr < unat (2 :: u32) * unat (2 :: u32) * unat (1 :: u32) * unat (1 :: u32).
        D addr = marked_buffer addr))"
proof -
  have h: "unat (2 :: u32) \<le> 2 ^ 1" "unat (1 :: u32) \<le> 2 ^ 0" "(1 :: nat) \<le> 31" "(0 :: nat) \<le> 31"
    "1 \<le> unat (1 :: u32)" "unat (1 :: u32) * 2 ^ (1 + 1 + 0) \<le> 2 ^ 32"
    by simp_all
  have t: "unat (2 :: u32) = unat (2 :: u32) * unat (1 :: u32)"
    "unat (4 :: u32) = unat (2 :: u32) * unat (2 :: u32)"
    "(unat (2 :: u32) - 1) * unat (2 :: u32) < 2 ^ 32"
    "(1 :: u32) < 2" "(0 :: u32) < 1" "0 < unat (1 :: u32)"
    by simp_all
  from round_trip_restores_every_pixel [OF h(1) h(1) h(2) h(3) h(3) h(4) h(5) h(6),
      where B = marked_buffer and rp = 2 and sp = 4 and tmp = zero_buffer and dst = zero_buffer]
  obtain S D where r: "swizzle_box marked_buffer 2 2 1 zero_buffer 2 4 1 = Some (Inr S)"
    "round_trip marked_buffer 2 2 1 2 4 1 zero_buffer zero_buffer = Some (Inr D)"
    "\<forall>addr. D addr =
        (if addr \<in> pixel_bytes 2 2 1 2 4 1 then marked_buffer addr else zero_buffer addr)"
    and p: "(unat (2 :: u32) - 1) * unat (2 :: u32) < 2 ^ 32 \<longrightarrow>
      (\<forall>x y z k. x < (2 :: u32) \<and> y < (2 :: u32) \<and> z < (1 :: u32) \<and> k < unat (1 :: u32) \<longrightarrow>
        D (unat z * unat (4 :: u32) + unat y * unat (2 :: u32) + unat x * unat (1 :: u32) + k) =
        marked_buffer
          (unat z * unat (4 :: u32) + unat y * unat (2 :: u32) + unat x * unat (1 :: u32) + k))"
    and f: "unat (2 :: u32) = unat (2 :: u32) * unat (1 :: u32) \<and>
        unat (4 :: u32) = unat (2 :: u32) * unat (2 :: u32) \<longrightarrow>
      (\<forall>addr < unat (2 :: u32) * unat (2 :: u32) * unat (1 :: u32) * unat (1 :: u32).
        D addr = marked_buffer addr)"
    by blast
  have "D (unat (0 :: u32) * unat (4 :: u32) + unat (1 :: u32) * unat (2 :: u32)
          + unat (1 :: u32) * unat (1 :: u32) + 0) =
        marked_buffer (unat (0 :: u32) * unat (4 :: u32) + unat (1 :: u32) * unat (2 :: u32)
          + unat (1 :: u32) * unat (1 :: u32) + 0)"
    using p t(3,4,5,6) by blast
  moreover have "\<forall>addr < unat (2 :: u32) * unat (2 :: u32) * unat (1 :: u32) * unat (1 :: u32).
        D addr = marked_buffer addr"
    using f t(1,2) by blast
  ultimately have "\<exists>S D. swizzle_box marked_buffer 2 2 1 zero_buffer 2 4 1 = Some (Inr S) \<and>
      round_trip marked_buffer 2 2 1 2 4 1 zero_buffer zero_buffer = Some (Inr D) \<and>
      (\<forall>addr. D addr =
        (if addr \<in> pixel_bytes 2 2 1 2 4 1 then marked_buffer addr else zero_buffer addr)) \<and>
      D (unat (0 :: u32) * unat (4 :: u32) + unat (1 :: u32) * unat (2 :: u32)
          + unat (1 :: u32) * unat (1 :: u32) + 0) =
        marked_buffer (unat (0 :: u32) * unat (4 :: u32) + unat (1 :: u32) * unat (2 :: u32)
          + unat (1 :: u32) * unat (1 :: u32) + 0) \<and>
      (\<forall>addr < unat (2 :: u32) * unat (2 :: u32) * unat (1 :: u32) * unat (1 :: u32).
        D addr = marked_buffer addr)"
    using r by blast
  then show ?thesis using h t by (simp only: simp_thms)
qed
section \<open>The copy performed for each coordinate\<close>

lemma swizzle_pixel_byte:
  "swizzle_pixel src (mx, my, mz) rp sp bpp (x, y, z) m a =
    (if unat (get_swizzled_offset x y z (make_expand_mask mx) (make_expand_mask my)
          (make_expand_mask mz) bpp) \<le> a \<and>
        a < unat (get_swizzled_offset x y z (make_expand_mask mx) (make_expand_mask my)
          (make_expand_mask mz) bpp) + unat bpp
     then src (unat z * unat sp + unat (y * rp) + unat (x * bpp) +
       (a - unat (get_swizzled_offset x y z (make_expand_mask mx) (make_expand_mask my)
          (make_expand_mask mz) bpp)))
     else m a)"
  by (simp add: swizzle_pixel_def memcpy_def swizzled_address_offset linear_address_def)

lemma unswizzle_pixel_byte:
  "unswizzle_pixel src (mx, my, mz) rp sp bpp (x, y, z) m a =
    (if unat z * unat sp + unat (y * rp) + unat (x * bpp) \<le> a \<and>
        a < unat z * unat sp + unat (y * rp) + unat (x * bpp) + unat bpp
     then src (unat (get_swizzled_offset x y z (make_expand_mask mx) (make_expand_mask my)
          (make_expand_mask mz) bpp) +
       (a - (unat z * unat sp + unat (y * rp) + unat (x * bpp))))
     else m a)"
  by (simp add: unswizzle_pixel_def memcpy_def swizzled_address_offset linear_address_def)

lemma box_copies_return:
  assumes "unat w \<le> 2 ^ 31" "unat h \<le> 2 ^ 31" "unat d \<le> 2 ^ 31"
  shows "\<exists>mx my mz. generate_swizzle_masks w h d = Some (Inr (mx, my, mz)) \<and>
    swizzle_box src w h d dst rp sp bpp =
      Some (Inr (fold (swizzle_pixel src (mx, my, mz) rp sp bpp) (box_coords w h d) dst)) \<and>
    unswizzle_box src w h d dst rp sp bpp =
      Some (Inr (fold (unswizzle_pixel src (mx, my, mz) rp sp bpp) (box_coords w h d) dst))"
proof -
  from generate_swizzle_masks_returns [OF assms]
  obtain mx my mz where m: "generate_swizzle_masks w h d = Some (Inr (mx, my, mz))"
    by blast
  have "swizzle_box src w h d dst rp sp bpp =
      Some (Inr (fold (swizzle_pixel src (mx, my, mz) rp sp bpp) (box_coords w h d) dst))"
    unfolding swizzle_box_fold m by simp
  moreover have "unswizzle_box src w h d dst rp sp bpp =
      Some (Inr (fold (unswizzle_pixel src (mx, my, mz) rp sp bpp) (box_coords w h d) dst))"
    unfolding unswizzle_box_fold m by simp
  ultimately show ?thesis using m by blast
qed

lemma products_plain:
  fixes x y rp bpp :: u32
  assumes "unat y * unat rp < 2 ^ 32" "unat x * unat bpp < 2 ^ 32"
  shows "unat (y * rp) = unat y * unat rp" "unat (x * bpp) = unat x * unat bpp"
proof -
  have "unat y * unat rp < 2 ^ LENGTH(32)" "unat x * unat bpp < 2 ^ LENGTH(32)"
    using assms by simp_all
  then show "unat (y * rp) = unat y * unat rp" "unat (x * bpp) = unat x * unat bpp"
    by (simp_all only: unat_mult_lem)
qed

text \<open>
  C5, as stated, fails where a product of the linear address does not fit 32 bits: the code
  computes \<open>y * row_pitch\<close> and \<open>x * bytes_per_pixel\<close> in \<open>unsigned int\<close>. For a 1 by 3 by 1
  box of one-byte pixels with row pitch \<open>2 ^ 31\<close> the masks are 0, 3, 0, and the pixel at
  \<open>y = 2\<close>, whose swizzled offset is 2, is copied from linear address \<open>(2 * 2 ^ 31) mod 2 ^ 32\<close>,
  which is 0, not from \<open>0 * slice_pitch + 2 * 2 ^ 31 + 0 * 1\<close>: byte 2 of the swizzled
  buffer is byte 0 of the source (here 2), not its byte \<open>2 ^ 32\<close> (here 1).
\<close>

theorem box_copy_wraps_row_offset:
  "generate_swizzle_masks 1 3 1 = Some (Inr (0, 3, 0)) \<and>
   unat (get_swizzled_offset 0 2 0 (make_expand_mask 0) (make_expand_mask 3)
     (make_expand_mask 0) 1) = 2 \<and>
   read_byte (swizzle_box wrap_probe_buffer 1 3 1 zero_buffer 0x80000000 0 1) 2 = Some 2 \<and>
   wrap_probe_buffer 0 = 2 \<and>
   wrap_probe_buffer (0 * 0 + 2 * 0x80000000 + 0 * 1) = 1"
proof -
  have m: "generate_swizzle_masks 1 3 1 = Some (Inr (0, 3, 0))" by code_simp
  have c: "box_coords 1 3 1 = [(0, 0, 0), (0, 1, 0), (0, 2, 0)]"
    by (simp add: box_coords_def word_range_def upt_rec)
  have o: "unat (get_swizzled_offset 0 2 0 (make_expand_mask 0) (make_expand_mask 3)
     (make_expand_mask 0) 1) = 2"
    by (simp add: get_swizzled_offset_def expand_deposit deposit_unfold)
  have r: "read_byte (swizzle_box wrap_probe_buffer 1 3 1 zero_buffer 0x80000000 0 1) 2 = Some 2"
    unfolding swizzle_box_fold m c
    by (simp add: read_byte_def swizzle_pixel_def memcpy_def
        linear_address_def swizzled_address_def expand_deposit deposit_unfold
        wrap_probe_buffer_def zero_buffer_def)
  have b: "wrap_probe_buffer 0 = 2" "wrap_probe_buffer (0 * 0 + 2 * 0x80000000 + 0 * 1) = 1"
    by (simp_all add: wrap_probe_buffer_def)
  show ?thesis using m o r b by (simp only: simp_thms)
qed

text \<open>
  C5, amended: \<open>swizzle_box\<close> and \<open>unswizzle_box\<close> perform one copy per coordinate of the box
  \<open>[0, width) \<times> [0, height) \<times> [0, depth)\<close>, each coordinate exactly once, in the order of the
  loop nest, and return the buffer so obtained; they return for all dimensions up to
  \<open>2 ^ 31\<close>. The copy for \<open>(x, y, z)\<close> moves exactly \<open>bytes_per_pixel\<close> bytes between the linear
  address \<open>z * slice_pitch + (y * row_pitch) mod 2 ^ 32 + (x * bytes_per_pixel) mod 2 ^ 32\<close>
  and the swizzled offset \<open>get_swizzled_offset\<close> computes, the 32-bit product
  \<open>bytes_per_pixel * (expand x mask_x OR expand y mask_y OR expand z mask_z)\<close>, and leaves
  every other byte of the destination as it was: \<open>swizzle_box\<close> copies from the linear
  to the swizzled side, \<open>unswizzle_box\<close> from the swizzled to the linear side. When
  \<open>y * row_pitch\<close> and \<open>x * bytes_per_pixel\<close> are below \<open>2 ^ 32\<close> the linear address is the plain
  \<open>z * slice_pitch + y * row_pitch + x * bytes_per_pixel\<close>.
\<close>

theorem box_copies_each_coordinate_once:
  "swizzle_box src w h d dst rp sp bpp =
    (case generate_swizzle_masks w h d of
      None \<Rightarrow> None
    | Some (Inl e) \<Rightarrow> Some (Inl e)
    | Some (Inr masks) \<Rightarrow>
        Some (Inr (fold (swizzle_pixel src masks rp sp bpp) (box_coords w h d) dst))) \<and>
   unswizzle_box src w h d dst rp sp bpp =
    (case generate_swizzle_masks w h d of
      None \<Rightarrow> None
    | Some (Inl e) \<Rightarrow> Some (Inl e)
    | Some (Inr masks) \<Rightarrow>
        Some (Inr (fold (unswizzle_pixel src masks rp sp bpp) (box_coords w h d) dst))) \<and>
   (unat w \<le> 2 ^ 31 \<and> unat h \<le> 2 ^ 31 \<and> unat d \<le> 2 ^ 31 \<longrightarrow>
     (\<exists>mx my mz. generate_swizzle_masks w h d = Some (Inr (mx, my, mz)) \<and>
        swizzle_box src w h d dst rp sp bpp =
          Some (Inr (fold (swizzle_pixel src (mx, my, mz) rp sp bpp) (box_coords w h d) dst)) \<and>
        unswizzle_box src w h d dst rp sp bpp =
          Some (Inr (fold (unswizzle_pixel src (mx, my, mz) rp sp bpp) (box_coords w h d)
            dst)))) \<and>
   distinct (box_coords w h d) \<and>
   set (box_coords w h d) = {(x, y, z). x < w \<and> y < h \<and> z < d} \<and>
   swizzle_pixel src (mx, my, mz) rp sp bpp (x, y, z) m a =
    (if unat (get_swizzled_offset x y z (make_expand_mask mx) (make_expand_mask my)
          (make_expand_mask mz) bpp) \<le> a \<and>
        a < unat (get_swizzled_offset x y z (make_expand_mask mx) (make_expand_mask my)
          (make_expand_mask mz) bpp) + unat bpp
     then src (unat z * unat sp + unat (y * rp) + unat (x * bpp) +
       (a - unat (get_swizzled_offset x y z (make_expand_mask mx) (make_expand_mask my)
          (make_expand_mask mz) bpp)))
     else m a) \<and>
   unswizzle_pixel src (mx, my, mz) rp sp bpp (x, y, z) m a =
    (if unat z * unat sp + unat (y * rp) + unat (x * bpp) \<le> a \<and>
        a < unat z * unat sp + unat (y * rp) + unat (x * bpp) + unat bpp
     then src (unat (get_swizzled_offset x y z (make_expand_mask mx) (make_expand_mask my)
          (make_expand_mask mz) bpp) +
       (a - (unat z * unat sp + unat (y * rp) + unat (x * bpp))))
     else m a) \<and>
   get_swizzled_offset x y z (make_expand_mask mx) (make_expand_mask my) (make_expand_mask mz)
     bpp =
     bpp * (expand x (make_expand_mask mx) OR expand y (make_expand_mask my)
       OR expand z (make_expand_mask mz)) \<and>
   (unat y * unat rp < 2 ^ 32 \<and> unat x * unat bpp < 2 ^ 32 \<longrightarrow>
      unat z * unat sp + unat (y * rp) + unat (x * bpp) =
      unat z * unat sp + unat y * unat rp + unat x * unat bpp)"
proof -
  have ret: "unat w \<le> 2 ^ 31 \<and> unat h \<le> 2 ^ 31 \<and> unat d \<le> 2 ^ 31 \<longrightarrow>
     (\<exists>mx my mz. generate_swizzle_masks w h d = Some (Inr (mx, my, mz)) \<and>
        swizzle_box src w h d dst rp sp bpp =
          Some (Inr (fold (swizzle_pixel src (mx, my, mz) rp sp bpp) (box_coords w h d) dst)) \<and>
        unswizzle_box src w h d dst rp sp bpp =
          Some (Inr (fold (unswizzle_pixel src (mx, my, mz) rp sp bpp) (box_coords w h d)
            dst)))"
    using box_copies_return [of w h d src dst rp sp bpp] by blast
  have off: "get_swizzled_offset x y z (make_expand_mask mx) (make_expand_mask my)
      (make_expand_mask mz) bpp =
     bpp * (expand x (make_expand_mask mx) OR expand y (make_expand_mask my)
       OR expand z (make_expand_mask mz))"
    by (simp add: get_swizzled_offset_def)
  have plain: "unat y * unat rp < 2 ^ 32 \<and> unat x * unat bpp < 2 ^ 32 \<longrightarrow>
      unat z * unat sp + unat (y * rp) + unat (x * bpp) =
      unat z * unat sp + unat y * unat rp + unat x * unat bpp"
    using products_plain [of y rp x bpp] by simp
  show ?thesis
    by (intro conjI swizzle_box_fold unswizzle_box_fold ret distinct_box_coords set_box_coords
        swizzle_pixel_byte unswizzle_pixel_byte off plain)
qed

theorem box_copies_each_coordinate_once_witness:
  "unat (2 :: u32) \<le> 2 ^ 31 \<and> unat (1 :: u32) \<le> 2 ^ 31 \<and>
   unat (1 :: u32) * unat (2 :: u32) < 2 ^ 32 \<and> unat (1 :: u32) * unat (1 :: u32) < 2 ^ 32 \<and>
   (\<exists>mx my mz. generate_swizzle_masks 2 2 1 = Some (Inr (mx, my, mz)) \<and>
      swizzle_box marked_buffer 2 2 1 zero_buffer 2 4 1 =
        Some (Inr (fold (swizzle_pixel marked_buffer (mx, my, mz) 2 4 1) (box_coords 2 2 1)
          zero_buffer))) \<and>
   unat (0 :: u32) * unat (4 :: u32) + unat ((1 :: u32) * 2) + unat ((1 :: u32) * 1) =
     unat (0 :: u32) * unat (4 :: u32) + unat (1 :: u32) * unat (2 :: u32)
       + unat (1 :: u32) * unat (1 :: u32) \<and>
   read_byte (swizzle_box marked_buffer 2 2 1 zero_buffer 2 4 1) 0 = Some 1 \<and>
   read_byte (swizzle_box marked_buffer 2 2 1 zero_buffer 2 4 1) 3 = Some 0"
proof -
  note t = box_copies_each_coordinate_once [where src = marked_buffer and w = 2 and h = 2
      and d = 1 and dst = zero_buffer and rp = 2 and sp = 4 and bpp = 1 and x = 1 and y = 1
      and z = 0]
  have h: "unat (2 :: u32) \<le> 2 ^ 31" "unat (1 :: u32) \<le> 2 ^ 31"
    "unat (1 :: u32) * unat (2 :: u32) < 2 ^ 32" "unat (1 :: u32) * unat (1 :: u32) < 2 ^ 32"
    by simp_all
  have e: "\<exists>mx my mz. generate_swizzle_masks 2 2 1 = Some (Inr (mx, my, mz)) \<and>
      swizzle_box marked_buffer 2 2 1 zero_buffer 2 4 1 =
        Some (Inr (fold (swizzle_pixel marked_buffer (mx, my, mz) 2 4 1) (box_coords 2 2 1)
          zero_buffer))"
    using t h by blast
  have p: "unat (0 :: u32) * unat (4 :: u32) + unat ((1 :: u32) * 2) + unat ((1 :: u32) * 1) =
     unat (0 :: u32) * unat (4 :: u32) + unat (1 :: u32) * unat (2 :: u32)
       + unat (1 :: u32) * unat (1 :: u32)"
    using t h by blast
  have m: "generate_swizzle_masks 2 2 1 = Some (Inr (1, 2, 0))" by code_simp
  have c: "box_coords 2 2 1 = [(0, 0, 0), (1, 0, 0), (0, 1, 0), (1, 1, 0)]"
    by (simp add: box_coords_def word_range_def upt_rec)
  have s: "swizzle_box marked_buffer 2 2 1 zero_buffer 2 4 1 =
      Some (Inr (fold (swizzle_pixel marked_buffer (1, 2, 0) 2 4 1) (box_coords 2 2 1)
        zero_buffer))"
    using t m by simp
  have r: "read_byte (swizzle_box marked_buffer 2 2 1 zero_buffer 2 4 1) 0 = Some 1"
    "read_byte (swizzle_box marked_buffer 2 2 1 zero_buffer 2 4 1) 3 = Some 0"
    unfolding s c
    by (simp_all add: read_byte_def swizzle_pixel_def memcpy_def
        linear_address_def swizzled_address_def expand_deposit deposit_unfold
        marked_buffer_def zero_buffer_def)
  show ?thesis using h e p r by (simp only: simp_thms)
qed

section \<open>The rectangle wrappers\<close>

text \<open>
  C7: \<open>swizzle_rect\<close> is \<open>swizzle_box\<close> with depth 1 and slice pitch 0, and
  \<open>unswizzle_rect\<close> is \<open>unswizzle_box\<close> with depth 1 and slice pitch 0: the same result
  (the same destination bytes, the same failure to return) for all arguments.
\<close>

theorem rect_wrappers_are_box_depth_1:
  "swizzle_rect src width height dst pitch bytes_per_pixel =
     swizzle_box src width height 1 dst pitch 0 bytes_per_pixel \<and>
   unswizzle_rect src width height dst pitch bytes_per_pixel =
     unswizzle_box src width height 1 dst pitch 0 bytes_per_pixel"
  by (simp add: swizzle_rect_def unswizzle_rect_def)

end
